theory Spec2Isabelle
  imports Complex_Main "HOL-Library.Word"
begin

section \<open>Python exceptions\<close>

text \<open>
  The exceptions that the modelled functions of \<^verbatim>\<open>modules/hardware.py\<close> and
  \<^verbatim>\<open>modules/ui.py\<close> can raise. A function that can raise returns the exception
  next to the state reached when it was raised, so that the effects performed before the
  raise stay visible.
\<close>

datatype py_error =
    NameError string
  | ZeroDivisionError
  | OverflowError
  | ValueError

section \<open>modules/hardware.py: the names imported from modules/constants.py\<close>

text \<open>
  \<^verbatim>\<open>from .constants import CMD_HZ_8000, CMD_HZ_1000, SEQ_DPI_1600, SEQ_DPI_800\<close>

  The file \<^verbatim>\<open>modules/constants.py\<close> is not part of the sources at hand, so the four
  byte sequences are a parameter of the model. What the model keeps from the source is the
  list of names that the import statement binds in the module namespace.
\<close>

type_synonym packet = "8 word list"

record constants =
  CMD_HZ_8000 :: packet
  CMD_HZ_1000 :: packet
  SEQ_DPI_1600 :: "packet list"
  SEQ_DPI_800 :: "packet list"

definition module_commands :: "constants \<Rightarrow> (string \<times> packet) list" where
  "module_commands c = [(''CMD_HZ_8000'', CMD_HZ_8000 c), (''CMD_HZ_1000'', CMD_HZ_1000 c)]"

definition module_sequences :: "constants \<Rightarrow> (string \<times> packet list) list" where
  "module_sequences c = [(''SEQ_DPI_1600'', SEQ_DPI_1600 c), (''SEQ_DPI_800'', SEQ_DPI_800 c)]"

text \<open>Reading a global name: a name that the module never bound raises NameError.\<close>

definition load_command :: "constants \<Rightarrow> string \<Rightarrow> py_error + packet" where
  "load_command c name =
     (case map_of (module_commands c) name of
        None \<Rightarrow> Inl (NameError name)
      | Some p \<Rightarrow> Inr p)"

definition load_sequence :: "constants \<Rightarrow> string \<Rightarrow> py_error + packet list" where
  "load_sequence c name =
     (case map_of (module_sequences c) name of
        None \<Rightarrow> Inl (NameError name)
      | Some ps \<Rightarrow> Inr ps)"

section \<open>modules/hardware.py: VXEMouseBackend\<close>

text \<open>
  The backend holds the device handle (\<^verbatim>\<open>self.device\<close>, None until
  \<^verbatim>\<open>connect\<close> assigns it). Its effects are the packets written to the device and
  the calls of \<^verbatim>\<open>time.sleep\<close>, recorded in order in \<open>trace\<close> (delays in
  milliseconds: \<^verbatim>\<open>time.sleep(0.02)\<close> is \<open>Sleep 20\<close>), and the lines given to the
  logger. A handle is an object, hence true in a condition, whether it is open or not. A
  write raises on a handle that was never opened or whose device has gone away
  (\<open>write_raises\<close>); \<^verbatim>\<open>_send\<close> catches that and logs it.
\<close>

datatype hid_device = HidDevice (write_raises: bool)

datatype hid_event = Write packet | Sleep nat

record VXEMouseBackend =
  device :: "hid_device option"
  trace :: "hid_event list"
  mouse_log :: "string list"

definition VXEMouseBackend_init :: VXEMouseBackend where
  "VXEMouseBackend_init = \<lparr>device = None, trace = [], mouse_log = []\<rparr>"

definition send :: "VXEMouseBackend \<Rightarrow> packet \<Rightarrow> VXEMouseBackend" where
  "send s data =
     (case device s of
        None \<Rightarrow> s
      | Some d \<Rightarrow>
          if write_raises d then s\<lparr>mouse_log := mouse_log s @ [''VXE Mouse send error'']\<rparr>
          else s\<lparr>trace := trace s @ [Write data]\<rparr>)"

definition sleep :: "nat \<Rightarrow> VXEMouseBackend \<Rightarrow> VXEMouseBackend" where
  "sleep ms s = s\<lparr>trace := trace s @ [Sleep ms]\<rparr>"

text \<open>\<^verbatim>\<open>for p in SEQ: self._send(p); time.sleep(0.02)\<close>\<close>

fun send_paced :: "VXEMouseBackend \<Rightarrow> packet list \<Rightarrow> VXEMouseBackend" where
  "send_paced s [] = s"
| "send_paced s (p # ps) = send_paced (sleep 20 (send s p)) ps"

text \<open>
  \<^verbatim>\<open>connect\<close> scans the devices that \<^verbatim>\<open>hid.enumerate\<close> reports for the vendor and
  product identifiers. A device is described by its path, a byte string of ASCII
  characters as the system reports it, and by whether opening it succeeds. For the first
  device whose lower-cased path contains both \<^verbatim>\<open>mi_01\<close> and \<^verbatim>\<open>col05\<close> the source
  assigns a fresh handle to \<^verbatim>\<open>self.device\<close> and only then opens it: when
  \<^verbatim>\<open>open_path\<close> raises, the error is logged, \<^verbatim>\<open>connect\<close> returns False and the
  unopened handle stays in \<^verbatim>\<open>self.device\<close>. The argument \<open>None\<close> of \<open>connect\<close>
  stands for an enumeration that raises.
\<close>

record hid_info =
  info_path :: string
  open_ok :: bool

definition lower_char :: "char \<Rightarrow> char" where
  "lower_char c =
     (let n = (of_char c :: nat) in if 65 \<le> n \<and> n \<le> 90 then char_of (n + 32) else c)"

definition lower :: "string \<Rightarrow> string" where
  "lower p = map lower_char p"

fun starts_with :: "string \<Rightarrow> string \<Rightarrow> bool" where
  "starts_with xs [] = True"
| "starts_with [] (p # ps) = False"
| "starts_with (x # xs) (p # ps) = (x = p \<and> starts_with xs ps)"

fun contains :: "string \<Rightarrow> string \<Rightarrow> bool" where
  "contains [] p = (p = [])"
| "contains (x # xs) p = (starts_with (x # xs) p \<or> contains xs p)"

definition is_target_path :: "string \<Rightarrow> bool" where
  "is_target_path p = (let path = lower p in contains path ''mi_01'' \<and> contains path ''col05'')"

fun connect_scan :: "VXEMouseBackend \<Rightarrow> hid_info list \<Rightarrow> bool \<times> VXEMouseBackend" where
  "connect_scan s [] = (False, s)"
| "connect_scan s (d # ds) =
     (if is_target_path (info_path d) then
        (let s1 = s\<lparr>device := Some (HidDevice (\<not> open_ok d))\<rparr>
         in if open_ok d then (True, s1)
            else (False, s1\<lparr>mouse_log := mouse_log s1 @ [''VXE Mouse connect error'']\<rparr>))
      else connect_scan s ds)"

definition connect :: "VXEMouseBackend \<Rightarrow> hid_info list option \<Rightarrow> bool \<times> VXEMouseBackend" where
  "connect s enumerated =
     (case enumerated of
        None \<Rightarrow> (False, s\<lparr>mouse_log := mouse_log s @ [''VXE Mouse connect error'']\<rparr>)
      | Some ds \<Rightarrow> connect_scan s ds)"

definition set_game_mode :: "constants \<Rightarrow> VXEMouseBackend \<Rightarrow> py_error option \<times> VXEMouseBackend" where
  "set_game_mode c s =
     (if device s = None then (None, s)
      else case load_sequence c ''SEQ_DPI_1600'' of
             Inl e \<Rightarrow> (Some e, s)
           | Inr ps \<Rightarrow>
               let s1 = sleep 250 (send_paced s ps)
               in (case load_command c ''CMD_HZ_2000'' of
                     Inl e \<Rightarrow> (Some e, s1)
                   | Inr p \<Rightarrow> (None, send s1 p)))"

definition set_desktop_mode :: "constants \<Rightarrow> VXEMouseBackend \<Rightarrow> py_error option \<times> VXEMouseBackend" where
  "set_desktop_mode c s =
     (if device s = None then (None, s)
      else case load_sequence c ''SEQ_DPI_800'' of
             Inl e \<Rightarrow> (Some e, s)
           | Inr ps \<Rightarrow>
               let s1 = sleep 250 (send_paced s ps)
               in (case load_command c ''CMD_HZ_1000'' of
                     Inl e \<Rightarrow> (Some e, s1)
                   | Inr p \<Rightarrow> (None, send s1 p)))"

text \<open>
  Sample byte sequences and a sample device whose opening fails, used only where a
  statement is evaluated on a concrete backend.
\<close>

definition sample_unopenable :: hid_info where
  "sample_unopenable =
     \<lparr>info_path = ''HID#VID_373B&PID_1040&MI_01&Col05#7&1a2b3c&0&0004'', open_ok = False\<rparr>"

definition sample_constants :: constants where
  "sample_constants =
     \<lparr>CMD_HZ_8000 = [0x08, 0x40], CMD_HZ_1000 = [0x08, 0x01],
      SEQ_DPI_1600 = [0x04, 0x10] # [0x04, 0x11] # [],
      SEQ_DPI_800 = [0x04, 0x08] # [0x04, 0x09] # []\<rparr>"

section \<open>Python floats: IEEE-754 binary64\<close>

text \<open>
  A Python float is a double. The finite doubles are the rationals \<open>m * 2 ^ e\<close> with
  \<open>\<bar>m\<bar> < 2 ^ 53\<close> and \<open>- 1074 \<le> e\<close> that are smaller than \<open>2 ^ 1024\<close> in magnitude.
  Every arithmetic operation returns the exact result rounded to the nearest double, ties
  to the even mantissa (\<open>round_double\<close>); a rounded value whose binary exponent is 1024 or more
  (a magnitude of \<open>2 ^ 1024\<close> or more) is an infinity. Signed zeros are not distinguished and no operation below produces a NaN.
\<close>

definition pow2 :: "int \<Rightarrow> rat" where
  "pow2 e = (if 0 \<le> e then 2 ^ nat e else 1 / 2 ^ nat (- e))"

text \<open>The number of binary digits of a positive integer (0 for the others).\<close>

function bit_length :: "int \<Rightarrow> nat" where
  "bit_length n = (if n \<le> 0 then 0 else Suc (bit_length (n div 2)))"
  by pat_completeness auto
termination
  by (relation "measure nat") auto

declare bit_length.simps [simp del]

text \<open>The binary exponent of a rational \<open>x \<noteq> 0\<close>: \<open>2 ^ ilog2 x \<le> \<bar>x\<bar> < 2 ^ (ilog2 x + 1)\<close>.\<close>

definition ilog2 :: "rat \<Rightarrow> int" where
  "ilog2 x =
     (let (a, b) = quotient_of \<bar>x\<bar>;
          d = int (bit_length a) - int (bit_length b)
      in if pow2 d \<le> \<bar>x\<bar> then d else d - 1)"

definition round_half_even :: "rat \<Rightarrow> int" where
  "round_half_even x =
     (let f = \<lfloor>x\<rfloor>; d = x - of_int f
      in if d < 1 / 2 then f
         else if 1 / 2 < d then f + 1
         else if even f then f else f + 1)"

text \<open>
  Rounding to 53 significant bits, on the grid of the subnormal numbers below
  \<open>2 ^ (- 1022)\<close>, without the bound on the magnitude.
\<close>

definition round_double :: "rat \<Rightarrow> rat" where
  "round_double x =
     (if x = 0 then 0
      else let q = max (ilog2 x - 52) (- 1074)
           in of_int (round_half_even (x / pow2 q)) * pow2 q)"

datatype pyfloat = Finite rat | PosInf | NegInf

definition to_float :: "rat \<Rightarrow> pyfloat" where
  "to_float x =
     (let y = round_double x
      in if y \<noteq> 0 \<and> 1024 \<le> ilog2 y then (if 0 < y then PosInf else NegInf)
         else Finite y)"

text \<open>
  The conversion of an int operand of a float operation: correctly rounded, and
  OverflowError (int too large to convert to float) where the rounded value is no
  finite double.
\<close>

definition float_of_int :: "int \<Rightarrow> py_error + rat" where
  "float_of_int n =
     (case to_float (of_int n) of
        Finite y \<Rightarrow> Inr y
      | PosInf \<Rightarrow> Inl OverflowError
      | NegInf \<Rightarrow> Inl OverflowError)"

text \<open>\<^verbatim>\<open>int(x)\<close> on a float: truncation toward zero, OverflowError on an infinity.\<close>

definition trunc_toward_zero :: "rat \<Rightarrow> int" where
  "trunc_toward_zero x = (if 0 \<le> x then \<lfloor>x\<rfloor> else \<lceil>x\<rceil>)"

definition int_of_float :: "pyfloat \<Rightarrow> py_error + int" where
  "int_of_float x =
     (case x of
        Finite y \<Rightarrow> Inr (trunc_toward_zero y)
      | PosInf \<Rightarrow> Inl OverflowError
      | NegInf \<Rightarrow> Inl OverflowError)"

definition float_mul :: "rat \<Rightarrow> rat \<Rightarrow> pyfloat" where
  "float_mul x y = to_float (x * y)"

definition float_div :: "pyfloat \<Rightarrow> rat \<Rightarrow> py_error + pyfloat" where
  "float_div x t =
     (if t = 0 then Inl ZeroDivisionError
      else Inr (case x of
                  Finite a \<Rightarrow> to_float (a / t)
                | PosInf \<Rightarrow> if 0 < t then PosInf else NegInf
                | NegInf \<Rightarrow> if 0 < t then NegInf else PosInf))"

definition float_sub :: "rat \<Rightarrow> pyfloat \<Rightarrow> pyfloat" where
  "float_sub m x =
     (case x of
        Finite a \<Rightarrow> to_float (m - a)
      | PosInf \<Rightarrow> NegInf
      | NegInf \<Rightarrow> PosInf)"

definition float_abs :: "pyfloat \<Rightarrow> pyfloat" where
  "float_abs x = (case x of Finite a \<Rightarrow> Finite \<bar>a\<bar> | PosInf \<Rightarrow> PosInf | NegInf \<Rightarrow> PosInf)"

fun float_less :: "pyfloat \<Rightarrow> pyfloat \<Rightarrow> bool" where
  "float_less (Finite a) (Finite b) = (a < b)"
| "float_less (Finite a) PosInf = True"
| "float_less NegInf (Finite b) = True"
| "float_less NegInf PosInf = True"
| "float_less x y = False"

section \<open>modules/hardware.py: NvidiaService\<close>

text \<open>
  What \<^verbatim>\<open>_init_api\<close> leaves behind is the list of display handles it enumerated
  (\<^verbatim>\<open>self._handles\<close>) and the flag \<^verbatim>\<open>self._is_avail\<close>. The effects of
  \<^verbatim>\<open>set_vibrance\<close> are the calls of the driver function \<^verbatim>\<open>self._set_dvc\<close>,
  recorded in order with their three arguments, and the lines given to the logger. The
  driver call returns a status that the source ignores.
\<close>

record NvidiaService =
  handles :: "32 word list"
  is_avail :: bool
  dvc_calls :: "(32 word \<times> int \<times> int) list"
  gpu_log :: "string list"

definition available :: "NvidiaService \<Rightarrow> bool" where
  "available s = is_avail s"

definition set_dvc :: "NvidiaService \<Rightarrow> 32 word \<Rightarrow> int \<Rightarrow> int \<Rightarrow> NvidiaService" where
  "set_dvc s h a val = s\<lparr>dvc_calls := dvc_calls s @ [(h, a, val)]\<rparr>"

text \<open>The float literal \<^verbatim>\<open>1.26\<close> is the double nearest to 126/100.\<close>

definition lit_1_26 :: rat where
  "lit_1_26 = round_double (126 / 100)"

text \<open>\<^verbatim>\<open>max(-63, min(63, int((level - 50) * 1.26)))\<close>\<close>

definition vibrance_value :: "int \<Rightarrow> py_error + int" where
  "vibrance_value level =
     (case float_of_int (level - 50) of
        Inl e \<Rightarrow> Inl e
      | Inr x \<Rightarrow>
          (case int_of_float (float_mul x lit_1_26) of
             Inl e \<Rightarrow> Inl e
           | Inr n \<Rightarrow> Inr (max (- 63) (min 63 n))))"

definition set_vibrance :: "NvidiaService \<Rightarrow> int option \<Rightarrow> bool \<Rightarrow> NvidiaService" where
  "set_vibrance s level primary_only =
     (if \<not> available s then s
      else let level = (case level of None \<Rightarrow> 50 | Some l \<Rightarrow> l)
           in case vibrance_value level of
                Inl e \<Rightarrow> s\<lparr>gpu_log := gpu_log s @ [''Failed to set vibrance'']\<rparr>
              | Inr val \<Rightarrow>
                  if primary_only \<and> handles s \<noteq> [] then set_dvc s (handles s ! 0) 0 val
                  else foldl (\<lambda>s h. set_dvc s h 0 val) s (handles s))"

section \<open>modules/hardware.py: WindowsMouseService\<close>

text \<open>
  \<^verbatim>\<open>self._default\<close> is the pointer speed read from the system when the service is
  constructed. The effect of \<^verbatim>\<open>set_speed\<close> is a call of
  \<^verbatim>\<open>SystemParametersInfoW(0x0071, 0, v, 3)\<close>; the values \<open>v\<close> passed are recorded
  in order in \<open>spi_calls\<close>.
\<close>

record WindowsMouseService =
  default :: int
  spi_calls :: "int list"

text \<open>\<^verbatim>\<open>_MAP\<close>, in the order the dictionary lists its keys; every multiplier is a double.\<close>

definition MAP :: "(int \<times> rat) list" where
  "MAP = [(1, 1/32), (2, 1/16), (3, 1/8), (4, 1/4), (5, 3/8), (6, 1/2), (7, 5/8), (8, 3/4),
          (9, 7/8), (10, 1), (11, 5/4), (12, 3/2), (13, 7/4), (14, 2), (15, 9/4), (16, 5/2),
          (17, 11/4), (18, 3), (19, 13/4), (20, 7/2)]"

text \<open>The constructor; \<open>speed\<close> is what \<^verbatim>\<open>_get_speed\<close> reads from the system.\<close>

definition WindowsMouseService_init :: "int \<Rightarrow> WindowsMouseService" where
  "WindowsMouseService_init speed = \<lparr>default = speed, spi_calls = []\<rparr>"

definition set_speed :: "WindowsMouseService \<Rightarrow> int \<Rightarrow> WindowsMouseService" where
  "set_speed s index = s\<lparr>spi_calls := spi_calls s @ [max 1 (min 20 index)]\<rparr>"

definition reset :: "WindowsMouseService \<Rightarrow> WindowsMouseService" where
  "reset s = set_speed s (default s)"

text \<open>
  \<^verbatim>\<open>min(iterable, key=f)\<close>: the first item is the candidate, and a later item replaces
  it only where its key is strictly smaller; ValueError on an empty iterable.
\<close>

definition py_min_key :: "('a \<Rightarrow> pyfloat) \<Rightarrow> 'a list \<Rightarrow> py_error + 'a" where
  "py_min_key key xs =
     (case xs of
        [] \<Rightarrow> Inl ValueError
      | x # ys \<Rightarrow> Inr (foldl (\<lambda>best y. if float_less (key y) (key best) then y else best) x ys))"

text \<open>
  \<^verbatim>\<open>req = (base * self._MAP.get(10, 1.0)) / target\<close>, then the key of \<^verbatim>\<open>_MAP\<close>
  that minimises \<^verbatim>\<open>abs(self._MAP[k] - req)\<close>. The keys are visited together with
  their multipliers, which is what looking \<^verbatim>\<open>self._MAP[k]\<close> up for each key of the same
  dictionary gives.
\<close>

definition optimize :: "WindowsMouseService \<Rightarrow> int \<Rightarrow> int \<Rightarrow> py_error + WindowsMouseService" where
  "optimize s base target =
     (case float_of_int base of
        Inl e \<Rightarrow> Inl e
      | Inr b \<Rightarrow>
          let num = float_mul b (case map_of MAP 10 of Some m \<Rightarrow> m | None \<Rightarrow> 1)
          in (case float_of_int target of
                Inl e \<Rightarrow> Inl e
              | Inr t \<Rightarrow>
                  (case float_div num t of
                     Inl e \<Rightarrow> Inl e
                   | Inr req \<Rightarrow>
                       (case py_min_key (\<lambda>(k, m). float_abs (float_sub m req)) MAP of
                          Inl e \<Rightarrow> Inl e
                        | Inr (k, m) \<Rightarrow> Inr (set_speed s k)))))"

text \<open>
  A caller issues any sequence of calls on the service. A call of \<^verbatim>\<open>optimize\<close> that
  raises leaves the service as it was.
\<close>

datatype os_call = SetSpeed int | Reset | Optimize int int

fun do_call :: "WindowsMouseService \<Rightarrow> os_call \<Rightarrow> WindowsMouseService" where
  "do_call s (SetSpeed index) = set_speed s index"
| "do_call s Reset = reset s"
| "do_call s (Optimize base target) =
     (case optimize s base target of Inl e \<Rightarrow> s | Inr s' \<Rightarrow> s')"

definition do_calls :: "WindowsMouseService \<Rightarrow> os_call list \<Rightarrow> WindowsMouseService" where
  "do_calls s cs = foldl do_call s cs"

section \<open>The nearest table entry, in the words of the specification\<close>

text \<open>
  The specification of \<^verbatim>\<open>optimize\<close>: the table entry whose multiplier minimises the
  distance to the exact quotient of base and target, ties broken to the lower index.
  \<open>nearest_index\<close> is the index of the first entry of the table, which lists the indices
  in ascending order, whose distance is at most that of every entry. It works on exact
  rationals and is what the code is compared with.
\<close>

definition distance :: "rat \<Rightarrow> int \<times> rat \<Rightarrow> rat" where
  "distance q e = \<bar>snd e - q\<bar>"

definition nearest_index :: "rat \<Rightarrow> int option" where
  "nearest_index q =
     map_option fst (find (\<lambda>e. \<forall>e' \<in> set MAP. distance q e \<le> distance q e') MAP)"

text \<open>What the proofs use of a multiplier of the table: a positive multiple of 1/32, at most 7/2.\<close>

definition table_entry :: "rat \<Rightarrow> bool" where
  "table_entry m \<longleftrightarrow> 0 < m \<and> m \<le> 7 / 2 \<and> m * 32 \<in> \<int>"

section \<open>Finite doubles, for the proofs\<close>

text \<open>
  The doubles that \<open>round_double\<close> ranges over, and the exponent of the grid on which it
  rounds a given number.
\<close>

definition is_double :: "rat \<Rightarrow> bool" where
  "is_double x \<longleftrightarrow> (\<exists>m e. x = of_int m * pow2 e \<and> \<bar>m\<bar> < 2 ^ 53 \<and> - 1074 \<le> e)"

definition quantum :: "rat \<Rightarrow> int" where
  "quantum x = max (ilog2 x - 52) (- 1074)"

section \<open>modules/ui.py: the engine state and the actions of App\<close>

text \<open>
  \<^verbatim>\<open>AutomationEngine\<close> and \<^verbatim>\<open>SafetyProtocol\<close> are imported from
  \<^verbatim>\<open>modules/core.py\<close>, which is not part of the sources at hand. \<^verbatim>\<open>App\<close> reads
  and writes two attributes of the engine, \<^verbatim>\<open>running\<close> and \<^verbatim>\<open>current_state\<close>
  (a string: \<^verbatim>\<open>"unknown"\<close>, \<^verbatim>\<open>"desktop"\<close> or \<^verbatim>\<open>"game"\<close>), and calls
  \<^verbatim>\<open>self.safety.execute()\<close>, which acts on the three hardware services and is a
  parameter of the model (a function that returns normally). Of the widgets, the model
  keeps the texts that the two actions set; the colours come from the absent constants
  module and are left out. \<open>chk_single\<close> is None as long as the checkbox does not exist.
\<close>

record AutomationEngine =
  running :: bool
  current_state :: string

record hardware =
  hw_mouse :: VXEMouseBackend
  hw_gpu :: NvidiaService
  hw_os :: WindowsMouseService

record App =
  engine :: AutomationEngine
  hw :: hardware
  btn_toggle_text :: string
  lbl_status_text :: string
  lbl_vib_game :: int
  lbl_vib_desk :: int
  chk_single :: "bool option"

text \<open>
  Modelled from the spec: \<^verbatim>\<open>SafetyProtocol.execute\<close> of the absent
  \<^verbatim>\<open>modules/core.py\<close> drives the three backends to their desktop configuration and
  never raises. Here it is the parameter \<open>safety_execute\<close>, any function on the hardware.
\<close>

definition toggle_engine :: "(hardware \<Rightarrow> hardware) \<Rightarrow> App \<Rightarrow> App" where
  "toggle_engine safety_execute app =
     (let app1 = app\<lparr>engine := (engine app)\<lparr>running := \<not> running (engine app)\<rparr>\<rparr>;
          is_running = running (engine app1)
      in if is_running then
           app1\<lparr>btn_toggle_text := ''STOP AUTOMATION'',
                lbl_status_text := ''Monitoring Process...''\<rparr>
         else
           (let app2 = app1\<lparr>btn_toggle_text := ''START AUTOMATION''\<rparr>;
                app3 = app2\<lparr>hw := safety_execute (hw app2)\<rparr>;
                app4 = app3\<lparr>lbl_status_text := ''System Idle''\<rparr>
            in app4\<lparr>engine := (engine app4)\<lparr>current_state := ''unknown''\<rparr>\<rparr>))"

text \<open>\<open>value\<close> is the float the slider reports; \<^verbatim>\<open>int(value)\<close> truncates it.\<close>

definition on_vib_change :: "App \<Rightarrow> rat \<Rightarrow> bool \<Rightarrow> App" where
  "on_vib_change app value is_game =
     (let val = trunc_toward_zero value;
          app1 = (if is_game then app\<lparr>lbl_vib_game := val\<rparr> else app\<lparr>lbl_vib_desk := val\<rparr>);
          mode = (if is_game then ''game'' else ''desktop'')
      in if running (engine app1) \<and> current_state (engine app1) = mode then
           (let primary_only = (case chk_single app1 of Some b \<Rightarrow> b | None \<Rightarrow> False)
            in app1\<lparr>hw := (hw app1)\<lparr>hw_gpu :=
                 set_vibrance (hw_gpu (hw app1)) (Some val) primary_only\<rparr>\<rparr>)
         else app1)"

text \<open>Concrete states, used where a statement is evaluated.\<close>

definition sample_gpu :: NvidiaService where
  "sample_gpu = \<lparr>handles = [1, 2], is_avail = True, dvc_calls = [], gpu_log = []\<rparr>"

definition sample_app :: App where
  "sample_app =
     \<lparr>engine = \<lparr>running = True, current_state = ''game''\<rparr>,
      hw = \<lparr>hw_mouse = VXEMouseBackend_init, hw_gpu = sample_gpu,
            hw_os = WindowsMouseService_init 10\<rparr>,
      btn_toggle_text = ''STOP AUTOMATION'', lbl_status_text = ''Monitoring Process...'',
      lbl_vib_game = 50, lbl_vib_desk = 50, chk_single = Some False\<rparr>"

section \<open>Properties of VXEMouseBackend\<close>

lemma load_sequence_imported:
  "load_sequence c ''SEQ_DPI_1600'' = Inr (SEQ_DPI_1600 c)"
  "load_sequence c ''SEQ_DPI_800'' = Inr (SEQ_DPI_800 c)"
  by (simp_all add: load_sequence_def module_sequences_def)

lemma load_command_imported:
  "load_command c ''CMD_HZ_8000'' = Inr (CMD_HZ_8000 c)"
  "load_command c ''CMD_HZ_1000'' = Inr (CMD_HZ_1000 c)"
  by (simp_all add: load_command_def module_commands_def)

lemma load_command_CMD_HZ_2000:
  "load_command c ''CMD_HZ_2000'' = Inl (NameError ''CMD_HZ_2000'')"
  by (simp add: load_command_def module_commands_def)

lemma device_send_paced [simp]: "device (send_paced s ps) = device s"
  by (induction s ps rule: send_paced.induct)
     (simp_all add: send_def sleep_def split: option.splits)

lemma mouse_log_send_paced_healthy:
  "device s = Some (HidDevice False) \<Longrightarrow> mouse_log (send_paced s ps) = mouse_log s"
  by (induction s ps rule: send_paced.induct) (simp_all add: send_def sleep_def)

lemma trace_send_paced_healthy:
  "device s = Some (HidDevice False) \<Longrightarrow>
   trace (send_paced s ps) = trace s @ concat (map (\<lambda>p. [Write p, Sleep 20]) ps)"
  by (induction s ps rule: send_paced.induct) (simp_all add: send_def sleep_def)

text \<open>
  The sibling path: on a connected, healthy device \<^verbatim>\<open>set_desktop_mode\<close> returns
  normally, having written the DPI sequence paced by 20 ms, waited 250 ms and written
  \<^verbatim>\<open>CMD_HZ_1000\<close>.
\<close>

lemma set_desktop_mode_connected:
  assumes "device s = Some (HidDevice False)"
  shows "fst (set_desktop_mode c s) = None"
    and "trace (snd (set_desktop_mode c s)) =
           trace s @ concat (map (\<lambda>p. [Write p, Sleep 20]) (SEQ_DPI_800 c))
             @ [Sleep 250, Write (CMD_HZ_1000 c)]"
  using assms
  by (simp_all add: set_desktop_mode_def load_sequence_imported load_command_imported
        Let_def send_def sleep_def trace_send_paced_healthy)

text \<open>
  Claim C1. For a connected mouse \<^verbatim>\<open>set_game_mode\<close> is claimed to send the DPI
  sequence, wait, send a final mode-switch command and return without raising. The code
  sends the DPI sequence with its 20 ms pacing and waits 250 ms, but the name of the final
  command, \<^verbatim>\<open>CMD_HZ_2000\<close>, is not among the names the module imports: on every
  connected backend the call ends in NameError and no mode-switch packet is written.
\<close>

theorem set_game_mode_connected_NameError:
  "set_game_mode c \<lparr>device = Some d, trace = t, mouse_log = l\<rparr> =
     (Some (NameError ''CMD_HZ_2000''),
      sleep 250 (send_paced \<lparr>device = Some d, trace = t, mouse_log = l\<rparr> (SEQ_DPI_1600 c)))"
  by (simp add: set_game_mode_def load_sequence_imported load_command_CMD_HZ_2000)

lemma connect_scan_no_match:
  "connect_scan s (filter (\<lambda>d. \<not> is_target_path (info_path d)) ds) = (False, s)"
  by (induction ds) simp_all

lemma sample_unopenable_is_target: "is_target_path (info_path sample_unopenable)"
  by code_simp

lemma connect_sample_unopenable:
  "connect VXEMouseBackend_init (Some [sample_unopenable]) =
     (False, \<lparr>device = Some (HidDevice True), trace = [],
              mouse_log = [''VXE Mouse connect error'']\<rparr>)"
  by (simp add: connect_def sample_unopenable_is_target)
     (simp add: sample_unopenable_def VXEMouseBackend_init_def)

text \<open>
  Claim C7, as stated: when the mouse is not discovered or not connected, the mode calls
  send nothing, never raise, and the occurrence is logged once. Two parts fail. Without a
  handle (\<^verbatim>\<open>self.device\<close> is None) nothing is logged at all. And a mouse that is
  discovered but cannot be opened is not connected (\<^verbatim>\<open>connect\<close> returns False), yet
  \<^verbatim>\<open>self.device\<close> holds the unopened handle: there \<^verbatim>\<open>set_desktop_mode\<close> takes
  all its delays and logs one send error for every packet, and \<^verbatim>\<open>set_game_mode\<close>
  raises NameError.
\<close>

theorem disconnected_mode_call_logged_once_counterexample:
  "length (mouse_log (snd (set_game_mode sample_constants VXEMouseBackend_init)))
     \<noteq> Suc (length (mouse_log VXEMouseBackend_init)) \<and>
   fst (connect VXEMouseBackend_init (Some [sample_unopenable])) = False \<and>
   set_desktop_mode sample_constants (snd (connect VXEMouseBackend_init (Some [sample_unopenable]))) =
     (None, \<lparr>device = Some (HidDevice True), trace = [Sleep 20, Sleep 20, Sleep 250],
             mouse_log = [''VXE Mouse connect error'', ''VXE Mouse send error'',
                          ''VXE Mouse send error'', ''VXE Mouse send error'']\<rparr>) \<and>
   fst (set_game_mode sample_constants (snd (connect VXEMouseBackend_init (Some [sample_unopenable])))) =
     Some (NameError ''CMD_HZ_2000'')"
proof (intro conjI)
  show "length (mouse_log (snd (set_game_mode sample_constants VXEMouseBackend_init)))
          \<noteq> Suc (length (mouse_log VXEMouseBackend_init))"
    by (simp add: set_game_mode_def VXEMouseBackend_init_def)
  show "fst (connect VXEMouseBackend_init (Some [sample_unopenable])) = False"
    by (simp add: connect_sample_unopenable)
  show "set_desktop_mode sample_constants (snd (connect VXEMouseBackend_init (Some [sample_unopenable]))) =
          (None, \<lparr>device = Some (HidDevice True), trace = [Sleep 20, Sleep 20, Sleep 250],
                  mouse_log = [''VXE Mouse connect error'', ''VXE Mouse send error'',
                               ''VXE Mouse send error'', ''VXE Mouse send error'']\<rparr>)"
    by (simp add: connect_sample_unopenable set_desktop_mode_def load_sequence_imported
          load_command_imported sample_constants_def send_def sleep_def)
  show "fst (set_game_mode sample_constants (snd (connect VXEMouseBackend_init (Some [sample_unopenable])))) =
          Some (NameError ''CMD_HZ_2000'')"
    by (simp add: connect_sample_unopenable set_game_mode_def load_sequence_imported
          load_command_CMD_HZ_2000)
qed

text \<open>
  Claim C7, amended. While the backend holds no device handle (\<^verbatim>\<open>self.device\<close> is
  None, as the constructor leaves it and as a \<^verbatim>\<open>connect\<close> that discovers no matching
  device leaves it), \<^verbatim>\<open>set_game_mode\<close> and \<^verbatim>\<open>set_desktop_mode\<close> return normally
  and leave the backend as it was: no packet is written, no delay is taken and no line is
  logged.
\<close>

theorem disconnected_mode_calls_do_nothing:
  "set_game_mode c (s\<lparr>device := None\<rparr>) = (None, s\<lparr>device := None\<rparr>) \<and>
   set_desktop_mode c (s\<lparr>device := None\<rparr>) = (None, s\<lparr>device := None\<rparr>) \<and>
   device VXEMouseBackend_init = None \<and>
   connect VXEMouseBackend_init (Some (filter (\<lambda>d. \<not> is_target_path (info_path d)) ds)) =
     (False, VXEMouseBackend_init)"
  by (simp add: set_game_mode_def set_desktop_mode_def connect_def connect_scan_no_match)
     (simp add: VXEMouseBackend_init_def)

section \<open>Properties of the double rounding\<close>

text \<open>Powers of two with an integer exponent.\<close>

lemma pow2_powi: "pow2 e = 2 powi e"
  by (simp add: pow2_def power_int_def power_inverse [symmetric] inverse_eq_divide power_one_over)

lemma pow2_pos [simp]: "0 < pow2 e"
  by (simp add: pow2_def)

lemma pow2_nonneg [simp]: "0 \<le> pow2 e"
  by (simp add: pow2_def)

lemma pow2_add: "pow2 (a + b) = pow2 a * pow2 b"
  by (simp add: pow2_powi power_int_add)

lemma pow2_diff: "pow2 (a - b) = pow2 a / pow2 b"
  by (simp add: pow2_powi power_int_diff)

lemma pow2_of_nat [simp]: "pow2 (int n) = 2 ^ n"
  by (simp add: pow2_def)

lemma pow2_strict_mono: "a < b \<Longrightarrow> pow2 a < pow2 b"
  unfolding pow2_powi by (rule power_int_strict_increasing) simp_all

lemma pow2_less_iff [simp]: "pow2 a < pow2 b \<longleftrightarrow> a < b"
  using pow2_strict_mono [of a b] pow2_strict_mono [of b a]
  by (cases a b rule: linorder_cases) auto

lemma pow2_le_iff [simp]: "pow2 a \<le> pow2 b \<longleftrightarrow> a \<le> b"
  using pow2_less_iff [of b a] by (simp only: linorder_not_less [symmetric])

lemma pow2_nat: "0 \<le> e \<Longrightarrow> pow2 e = 2 ^ nat e"
  by (simp add: pow2_def)

text \<open>
  \<open>bit_length\<close> brackets a positive integer between two powers of two, and so \<open>ilog2\<close>
  is the binary exponent of a rational.
\<close>

lemma bit_length_bounds:
  "0 < n \<Longrightarrow> 2 ^ (bit_length n - 1) \<le> n \<and> n < 2 ^ bit_length n"
proof (induction n rule: bit_length.induct)
  case (1 n)
  show ?case
  proof (cases "n div 2 \<le> 0")
    case True
    with \<open>0 < n\<close> have "n = 1" by linarith
    then show ?thesis by (simp add: bit_length.simps [of 1] bit_length.simps [of 0])
  next
    case False
    then have pos: "0 < n div 2" by simp
    from "1.prems" have nle: "\<not> n \<le> 0" by simp
    from "1.IH" [OF nle pos]
    have ih: "2 ^ (bit_length (n div 2) - 1) \<le> n div 2" "n div 2 < 2 ^ bit_length (n div 2)"
      by simp_all
    have bl: "bit_length n = Suc (bit_length (n div 2))"
      using nle by (simp add: bit_length.simps [of n])
    have "2 ^ bit_length (n div 2) \<le> 2 * (n div 2)"
    proof -
      have "0 < bit_length (n div 2)" using pos by (simp add: bit_length.simps [of "n div 2"])
      then obtain k where k: "bit_length (n div 2) = Suc k" by (cases "bit_length (n div 2)") auto
      with ih(1) show ?thesis by simp
    qed
    moreover have "2 * (n div 2) \<le> n" by simp
    moreover have "n < 2 * (n div 2) + 2" by linarith
    ultimately show ?thesis using ih(2) bl by simp
  qed
qed

lemma bit_length_pos: "0 < n \<Longrightarrow> 0 < bit_length n"
  by (simp add: bit_length.simps [of n])

lemma ilog2_bounds:
  assumes "x \<noteq> 0"
  shows "pow2 (ilog2 x) \<le> \<bar>x\<bar>" and "\<bar>x\<bar> < pow2 (ilog2 x + 1)"
proof -
  obtain a b where ab: "quotient_of \<bar>x\<bar> = (a, b)" by (cases "quotient_of \<bar>x\<bar>")
  then have b: "0 < b" by (rule quotient_of_denom_pos)
  have x: "\<bar>x\<bar> = of_int a / of_int b" using ab by (rule quotient_of_div)
  have a: "0 < a"
  proof -
    have "0 < \<bar>x\<bar>" using assms by simp
    then have "0 < (of_int a :: rat) / of_int b" using x by simp
    then show ?thesis using b by (simp add: zero_less_divide_iff)
  qed
  define la lb where "la = bit_length a" and "lb = bit_length b"
  have la: "0 < la" and lb: "0 < lb" using a b by (simp_all add: la_def lb_def bit_length_pos)
  from bit_length_bounds [OF a] have a1: "(2::int) ^ (la - 1) \<le> a" and a2: "a < 2 ^ la"
    by (simp_all add: la_def)
  from bit_length_bounds [OF b] have b1: "(2::int) ^ (lb - 1) \<le> b" and b2: "b < 2 ^ lb"
    by (simp_all add: lb_def)
  have ra1: "(2::rat) ^ (la - 1) \<le> of_int a" using a1 by (metis of_int_le_iff of_int_numeral of_int_power)
  have ra2: "(of_int a :: rat) < 2 ^ la" using a2 by (metis of_int_less_iff of_int_numeral of_int_power)
  have rb1: "(2::rat) ^ (lb - 1) \<le> of_int b" using b1 by (metis of_int_le_iff of_int_numeral of_int_power)
  have rb2: "(of_int b :: rat) < 2 ^ lb" using b2 by (metis of_int_less_iff of_int_numeral of_int_power)
  define d where "d = int la - int lb"
  have rbpos: "(0::rat) < of_int b" using b by simp
  have rapos: "(0::rat) < of_int a" using a by simp
  have up: "\<bar>x\<bar> < pow2 (d + 1)"
  proof -
    have "pow2 (d + 1) = 2 ^ la / 2 ^ (lb - 1)"
    proof -
      have "d + 1 = int la - int (lb - 1)" using lb by (simp add: d_def)
      then show ?thesis by (simp add: pow2_diff)
    qed
    moreover have "of_int a / of_int b < (2::rat) ^ la / 2 ^ (lb - 1)"
      using ra2 rb1 rapos by (intro frac_less) simp_all
    ultimately show ?thesis using x by simp
  qed
  have lo: "pow2 (d - 1) \<le> \<bar>x\<bar>"
  proof -
    have "pow2 (d - 1) = 2 ^ (la - 1) / 2 ^ lb"
    proof -
      have "d - 1 = int (la - 1) - int lb" using la by (simp add: d_def)
      then show ?thesis by (simp add: pow2_diff)
    qed
    moreover have "(2::rat) ^ (la - 1) / 2 ^ lb \<le> of_int a / of_int b"
      using ra1 rb2 rbpos rapos by (intro frac_le) simp_all
    ultimately show ?thesis using x by simp
  qed
  have il: "ilog2 x = (if pow2 d \<le> \<bar>x\<bar> then d else d - 1)"
    by (simp add: ilog2_def ab la_def lb_def d_def Let_def)
  show "pow2 (ilog2 x) \<le> \<bar>x\<bar>" using il lo by (simp split: if_splits)
  show "\<bar>x\<bar> < pow2 (ilog2 x + 1)" using il up by (simp split: if_splits)
qed

text \<open>\<open>round_half_even\<close> returns a nearest integer.\<close>

lemma round_half_even_near: "\<bar>of_int (round_half_even x) - x\<bar> \<le> 1 / 2"
proof -
  define f where "f = \<lfloor>x\<rfloor>"
  have f: "of_int f \<le> x" "x < of_int f + 1" unfolding f_def by linarith+
  show ?thesis
    unfolding round_half_even_def Let_def f_def [symmetric]
    using f by (auto simp add: abs_if)
qed

lemma round_half_even_nearest: "\<bar>of_int (round_half_even x) - x\<bar> \<le> \<bar>of_int k - x\<bar>"
proof (cases "k = round_half_even x")
  case True
  then show ?thesis by simp
next
  case False
  then have "1 \<le> \<bar>k - round_half_even x\<bar>" by linarith
  then have "(1::rat) \<le> \<bar>of_int k - of_int (round_half_even x)\<bar>"
    by (metis of_int_1 of_int_abs of_int_diff of_int_le_iff)
  with round_half_even_near [of x] show ?thesis by linarith
qed

text \<open>
  \<open>round_double x\<close> is a double, and no double is nearer to \<open>x\<close>. Two consequences carry
  the rest of the development: a double is rounded to itself, and rounding is monotone.
\<close>

lemma round_double_quantum:
  "x \<noteq> 0 \<Longrightarrow> round_double x = of_int (round_half_even (x / pow2 (quantum x))) * pow2 (quantum x)"
  by (simp add: round_double_def quantum_def Let_def)

lemma grid_nearest:
  assumes "x \<noteq> 0"
  shows "\<bar>round_double x - x\<bar> \<le> \<bar>of_int k * pow2 (quantum x) - x\<bar>"
proof -
  define p where "p = pow2 (quantum x)"
  have p: "0 < p" by (simp add: p_def)
  define n where "n = round_half_even (x / p)"
  have "\<bar>of_int n - x / p\<bar> \<le> \<bar>of_int k - x / p\<bar>"
    unfolding n_def by (rule round_half_even_nearest)
  then have "\<bar>of_int n - x / p\<bar> * p \<le> \<bar>of_int k - x / p\<bar> * p"
    using p by (simp add: mult_right_mono)
  moreover have "\<bar>of_int j - x / p\<bar> * p = \<bar>of_int j * p - x\<bar>" for j
  proof -
    have "\<bar>of_int j - x / p\<bar> * p = \<bar>(of_int j - x / p) * p\<bar>"
      using p by (simp add: abs_mult)
    also have "(of_int j - x / p) * p = of_int j * p - x"
      using p by (simp add: field_simps)
    finally show ?thesis .
  qed
  ultimately have "\<bar>of_int n * p - x\<bar> \<le> \<bar>of_int k * p - x\<bar>"
    by simp
  moreover have "round_double x = of_int n * p"
    using assms by (simp add: round_double_quantum p_def n_def)
  ultimately show ?thesis by (simp add: p_def)
qed

lemma is_double_round_double: "is_double (round_double x)"
proof (cases "x = 0")
  case True
  have "(0::rat) = of_int 0 * pow2 0 \<and> \<bar>0::int\<bar> < 2 ^ 53 \<and> - 1074 \<le> (0::int)" by simp
  then have "is_double 0" unfolding is_double_def by blast
  then show ?thesis using True by (simp add: round_double_def)
next
  case False
  define q where "q = quantum x"
  define p where "p = pow2 q"
  have p: "0 < p" by (simp add: p_def)
  define n where "n = round_half_even (x / p)"
  have rd: "round_double x = of_int n * p"
    using False by (simp add: round_double_quantum n_def p_def q_def)
  have q: "ilog2 x - 52 \<le> q" "- 1074 \<le> q" by (simp_all add: q_def quantum_def)
  have "\<bar>x\<bar> < pow2 (ilog2 x + 1)" using False by (rule ilog2_bounds)
  also have "pow2 (ilog2 x + 1) \<le> pow2 (q + 53)" using q by simp
  also have "pow2 (q + 53) = p * 2 ^ 53" by (simp add: pow2_add pow2_nat p_def)
  finally have "\<bar>x\<bar> / p < 2 ^ 53" using p by (simp add: field_simps)
  then have xp: "\<bar>x / p\<bar> < 2 ^ 53" using p by (simp add: abs_divide)
  have "\<bar>of_int n - x / p\<bar> \<le> 1 / 2" unfolding n_def by (rule round_half_even_near)
  with xp have "\<bar>(of_int n :: rat)\<bar> < 2 ^ 53 + 1" by linarith
  then have "\<bar>(of_int n :: rat)\<bar> < of_int (2 ^ 53 + 1)" by simp
  then have "\<bar>n\<bar> < 2 ^ 53 + 1" by (simp only: of_int_abs [symmetric] of_int_less_iff)
  then have n: "\<bar>n\<bar> \<le> 2 ^ 53" by simp
  show ?thesis
  proof (cases "\<bar>n\<bar> < 2 ^ 53")
    case True
    then show ?thesis unfolding is_double_def rd p_def using q by blast
  next
    case False
    with n have "\<bar>n\<bar> = 2 ^ 53" by simp
    then consider "n = 2 ^ 53" | "n = - (2 ^ 53)" by linarith
    then show ?thesis
    proof cases
      case 1
      have "round_double x = of_int (2 ^ 52) * pow2 (q + 1)"
        by (simp add: rd 1 pow2_add pow2_nat p_def)
      moreover have "\<bar>2 ^ 52 :: int\<bar> < 2 ^ 53" by simp
      moreover have "- 1074 \<le> q + 1" using q by simp
      ultimately show ?thesis unfolding is_double_def by blast
    next
      case 2
      have "round_double x = of_int (- (2 ^ 52)) * pow2 (q + 1)"
        by (simp add: rd 2 pow2_add pow2_nat p_def)
      moreover have "\<bar>- (2 ^ 52) :: int\<bar> < 2 ^ 53" by simp
      moreover have "- 1074 \<le> q + 1" using q by simp
      ultimately show ?thesis unfolding is_double_def by blast
    qed
  qed
qed

lemma round_double_nearest:
  assumes "is_double z"
  shows "\<bar>round_double x - x\<bar> \<le> \<bar>z - x\<bar>"
proof (cases "x = 0")
  case True
  then show ?thesis by (simp add: round_double_def)
next
  case False
  from assms obtain m e where z: "z = of_int m * pow2 e" and m: "\<bar>m\<bar> < 2 ^ 53" and e: "- 1074 \<le> e"
    unfolding is_double_def by blast
  define q where "q = quantum x"
  show ?thesis
  proof (cases "q \<le> e")
    case True
    have "pow2 e = 2 ^ nat (e - q) * pow2 q"
    proof -
      have "pow2 e = pow2 ((e - q) + q)" by simp
      also have "\<dots> = pow2 (e - q) * pow2 q" by (rule pow2_add)
      finally show ?thesis using True by (simp add: pow2_nat)
    qed
    then have "z = of_int (m * 2 ^ nat (e - q)) * pow2 q" by (simp add: z)
    then show ?thesis
      using grid_nearest [OF False, of "m * 2 ^ nat (e - q)"] by (simp add: q_def)
  next
    case e_small: False
    then have qe: "q = ilog2 x - 52" using e by (simp add: q_def quantum_def)
    have lo: "pow2 (ilog2 x) \<le> \<bar>x\<bar>" using False by (rule ilog2_bounds)
    have "\<bar>z\<bar> = of_int \<bar>m\<bar> * pow2 e" by (simp add: z abs_mult)
    also have "\<dots> < 2 ^ 53 * pow2 e"
    proof -
      have "(of_int \<bar>m\<bar> :: rat) < of_int (2 ^ 53)" using m by (simp only: of_int_less_iff)
      then show ?thesis by simp
    qed
    also have "\<dots> = pow2 (e + 53)" by (simp add: pow2_add pow2_nat)
    also have "\<dots> \<le> pow2 (ilog2 x)" using e_small qe by simp
    finally have zlt: "\<bar>z\<bar> < pow2 (ilog2 x)" .
    have pw: "pow2 (ilog2 x) = of_int (2 ^ 52) * pow2 q"
    proof -
      have "pow2 (ilog2 x) = pow2 (52 + q)" by (simp add: qe)
      also have "\<dots> = pow2 52 * pow2 q" by (rule pow2_add)
      finally show ?thesis by (simp add: pow2_nat)
    qed
    show ?thesis
    proof (cases "0 < x")
      case True
      have "\<bar>round_double x - x\<bar> \<le> \<bar>of_int (2 ^ 52) * pow2 q - x\<bar>"
        unfolding q_def by (rule grid_nearest [OF False])
      with pw lo zlt True show ?thesis by simp
    next
      case neg: False
      have "\<bar>round_double x - x\<bar> \<le> \<bar>of_int (- (2 ^ 52)) * pow2 q - x\<bar>"
        unfolding q_def by (rule grid_nearest [OF False])
      moreover have "of_int (- (2 ^ 52)) * pow2 q = - pow2 (ilog2 x)" by (simp add: pw)
      ultimately show ?thesis using lo zlt neg False by simp
    qed
  qed
qed

lemma round_double_exact: "is_double x \<Longrightarrow> round_double x = x"
  using round_double_nearest [of x x] by simp

lemma round_double_mono:
  assumes "x \<le> y"
  shows "round_double x \<le> round_double y"
proof (rule ccontr)
  assume "\<not> round_double x \<le> round_double y"
  then have lt: "round_double y < round_double x" by simp
  have 1: "\<bar>round_double x - x\<bar> \<le> \<bar>round_double y - x\<bar>"
    by (rule round_double_nearest) (rule is_double_round_double)
  have 2: "\<bar>round_double y - y\<bar> \<le> \<bar>round_double x - y\<bar>"
    by (rule round_double_nearest) (rule is_double_round_double)
  from 1 lt have "round_double x + round_double y \<le> 2 * x" by linarith
  moreover from 2 lt have "2 * y \<le> round_double x + round_double y" by linarith
  ultimately have "x = y" using assms by linarith
  with lt show False by simp
qed


text \<open>Doubles at hand, and operations whose result stays finite.\<close>

lemma is_double_of_int: "\<bar>n\<bar> < 2 ^ 53 \<Longrightarrow> is_double (of_int n)"
proof -
  assume "\<bar>n\<bar> < 2 ^ 53"
  then have "of_int n = of_int n * pow2 0 \<and> \<bar>n\<bar> < 2 ^ 53 \<and> - 1074 \<le> (0::int)"
    by (simp add: pow2_def)
  then show ?thesis unfolding is_double_def by blast
qed

lemma is_double_dyadic:
  assumes "\<bar>n\<bar> < 2 ^ 53" "k \<le> 1074"
  shows "is_double (of_int n / 2 ^ k)"
proof -
  have "of_int n / 2 ^ k = of_int n * pow2 (- int k)" by (simp add: pow2_def)
  moreover have "- 1074 \<le> - int k" using assms by simp
  ultimately show ?thesis unfolding is_double_def using assms(1) by blast
qed

lemma is_double_minus: "is_double x \<Longrightarrow> is_double (- x)"
proof -
  assume "is_double x"
  then obtain m e where "x = of_int m * pow2 e" "\<bar>m\<bar> < 2 ^ 53" "- 1074 \<le> e"
    unfolding is_double_def by blast
  then have "- x = of_int (- m) * pow2 e \<and> \<bar>- m\<bar> < 2 ^ 53 \<and> - 1074 \<le> e" by simp
  then show ?thesis unfolding is_double_def by blast
qed

lemma ilog2_less: "x \<noteq> 0 \<Longrightarrow> \<bar>x\<bar> < pow2 e \<Longrightarrow> ilog2 x < e"
  using ilog2_bounds(1) [of x] pow2_less_iff [of "ilog2 x" e] by linarith

lemma to_float_Finite:
  assumes "\<bar>round_double x\<bar> < 2 ^ 1024"
  shows "to_float x = Finite (round_double x)"
proof (cases "round_double x = 0")
  case True
  then show ?thesis by (simp add: to_float_def)
next
  case False
  have "\<bar>round_double x\<bar> < pow2 1024" using assms by (simp add: pow2_nat)
  with False have "ilog2 (round_double x) < 1024" by (rule ilog2_less)
  then show ?thesis by (simp add: to_float_def Let_def)
qed

lemma round_double_abs_le:
  assumes "is_double b" "\<bar>x\<bar> \<le> b"
  shows "\<bar>round_double x\<bar> \<le> b"
proof -
  have "round_double x \<le> round_double b" using assms(2) by (intro round_double_mono) simp
  moreover have "round_double (- b) \<le> round_double x" using assms(2) by (intro round_double_mono) simp
  ultimately show ?thesis
    using assms(1) by (simp add: round_double_exact is_double_minus abs_le_iff)
qed

lemma to_float_exact:
  assumes "is_double x" "\<bar>x\<bar> < 2 ^ 1024"
  shows "to_float x = Finite x"
  using assms to_float_Finite [of x] by (simp add: round_double_exact)

lemma float_of_int_small: "\<bar>n\<bar> < 2 ^ 53 \<Longrightarrow> float_of_int n = Inr (of_int n)"
proof -
  assume n: "\<bar>n\<bar> < 2 ^ 53"
  then have "\<bar>n\<bar> < 2 ^ 1024" by (rule less_trans) simp
  then have "\<bar>of_int n :: rat\<bar> < of_int (2 ^ 1024)" by (simp only: of_int_abs [symmetric] of_int_less_iff)
  then have "\<bar>of_int n :: rat\<bar> < 2 ^ 1024" by simp
  then show ?thesis
    using n by (simp add: float_of_int_def to_float_exact is_double_of_int)
qed

lemma lit_1_26_value: "lit_1_26 = 5674535530486825 / 4503599627370496"
  unfolding lit_1_26_def by code_simp


section \<open>Properties of NvidiaService\<close>

text \<open>
  The double product \<^verbatim>\<open>(level - 50) * 1.26\<close> lies within \<open>2 ^ (- 51)\<close> of the exact
  product, which has a fractional part of at most 49/50 (or is an integer): both have the
  same integer part.
\<close>

lemma lit_1_26_split: "lit_1_26 = 63 / 50 + 1 / (25 * 2 ^ 52)"
  by (simp add: lit_1_26_value)

lemma mul_lit_bounds:
  fixes n :: int
  assumes "0 \<le> n" "n \<le> 50"
  shows "of_int ((63 * n) div 50) \<le> of_int n * lit_1_26"
    and "of_int n * lit_1_26 \<le> of_int ((63 * n) div 50) + 127 / 128"
proof -
  define I where "I = (63 * n) div 50"
  define r where "r = (63 * n) mod 50"
  have "63 * n = 50 * I + r" by (simp add: I_def r_def)
  then have "(of_int (63 * n) :: rat) = of_int (50 * I + r)" by simp
  then have eq: "63 * (of_int n :: rat) = 50 * of_int I + of_int r" by simp
  have "0 \<le> r" "r < 50" by (simp_all add: r_def)
  then have r: "(0::rat) \<le> of_int r" "(of_int r :: rat) \<le> 49" by simp_all
  have n: "(0::rat) \<le> of_int n" "(of_int n :: rat) \<le> 50" using assms by simp_all
  have x: "of_int n * lit_1_26 = (63 * of_int n) / 50 + of_int n / (25 * 2 ^ 52)"
    by (simp add: lit_1_26_split field_simps)
  have x': "of_int n * lit_1_26 = of_int I + of_int r / 50 + of_int n / (25 * 2 ^ 52)"
    unfolding x eq by (simp add: field_simps)
  show "of_int ((63 * n) div 50) \<le> of_int n * lit_1_26"
    unfolding I_def [symmetric] x' using r n by simp
  have "of_int r / 50 + of_int n / (25 * 2 ^ 52) \<le> (127 / 128 :: rat)"
    using r n by simp
  then show "of_int n * lit_1_26 \<le> of_int ((63 * n) div 50) + 127 / 128"
    unfolding I_def [symmetric] x' by simp
qed

lemma trunc_toward_zero_pos_range:
  assumes "0 \<le> I" "of_int I \<le> y" "y \<le> of_int I + 127 / 128"
  shows "trunc_toward_zero y = I"
proof -
  have "0 \<le> y" using assms by (simp add: order_trans [of 0 "of_int I" y])
  moreover have "\<lfloor>y\<rfloor> = I" using assms by (intro floor_unique) simp_all
  ultimately show ?thesis by (simp add: trunc_toward_zero_def)
qed

lemma trunc_toward_zero_neg_range:
  assumes "0 \<le> I" "- (of_int I + 127 / 128) \<le> y" "y \<le> - of_int I"
  shows "trunc_toward_zero y = - I"
proof (cases "0 \<le> y")
  case True
  with assms have "y = 0" "I = 0" by simp_all
  then show ?thesis by (simp add: trunc_toward_zero_def)
next
  case False
  have "\<lceil>y\<rceil> = - I" using assms by (intro ceiling_unique) simp_all
  with False show ?thesis by (simp add: trunc_toward_zero_def)
qed

lemma int_of_float_mul_lit_nonneg:
  fixes n :: int
  assumes "0 \<le> n" "n \<le> 50"
  shows "trunc_toward_zero (round_double (of_int n * lit_1_26)) = (63 * n) div 50"
proof -
  define I where "I = (63 * n) div 50"
  have I: "0 \<le> I" "I \<le> 63" using assms by (simp_all add: I_def)
  have d1: "is_double (of_int I)" using I by (intro is_double_of_int) simp
  have e: "(of_int I + 127 / 128 :: rat) = of_int (128 * I + 127) / 2 ^ 7" by simp
  have d2: "is_double (of_int I + 127 / 128)"
    unfolding e using I by (intro is_double_dyadic) simp_all
  have "round_double (of_int I) \<le> round_double (of_int n * lit_1_26)"
    unfolding I_def using assms by (intro round_double_mono mul_lit_bounds)
  then have lo: "of_int I \<le> round_double (of_int n * lit_1_26)"
    using d1 by (simp add: round_double_exact)
  have "round_double (of_int n * lit_1_26) \<le> round_double (of_int I + 127 / 128)"
    unfolding I_def using assms by (intro round_double_mono mul_lit_bounds)
  then have hi: "round_double (of_int n * lit_1_26) \<le> of_int I + 127 / 128"
    using d2 by (simp add: round_double_exact)
  show ?thesis unfolding I_def [symmetric] using I(1) lo hi by (rule trunc_toward_zero_pos_range)
qed

lemma int_of_float_mul_lit_neg:
  fixes n :: int
  assumes "- 50 \<le> n" "n \<le> 0"
  shows "trunc_toward_zero (round_double (of_int n * lit_1_26)) = - ((63 * (- n)) div 50)"
proof -
  define k where "k = - n"
  have k: "0 \<le> k" "k \<le> 50" using assms by (simp_all add: k_def)
  define I where "I = (63 * k) div 50"
  have I: "0 \<le> I" "I \<le> 63" using k by (simp_all add: I_def)
  have x: "of_int n * lit_1_26 = - (of_int k * lit_1_26)" by (simp add: k_def)
  have d1: "is_double (- of_int I)" using I by (intro is_double_minus is_double_of_int) simp
  have e: "(of_int I + 127 / 128 :: rat) = of_int (128 * I + 127) / 2 ^ 7" by simp
  have d2: "is_double (- (of_int I + 127 / 128))"
    unfolding e using I by (intro is_double_minus is_double_dyadic) simp_all
  have b1: "of_int I \<le> of_int k * lit_1_26" and b2: "of_int k * lit_1_26 \<le> of_int I + 127 / 128"
    unfolding I_def using k by (rule mul_lit_bounds)+
  have "round_double (of_int n * lit_1_26) \<le> round_double (- of_int I)"
    unfolding x using b1 by (intro round_double_mono) simp
  then have hi: "round_double (of_int n * lit_1_26) \<le> - of_int I"
    using d1 by (simp add: round_double_exact)
  have "round_double (- (of_int I + 127 / 128)) \<le> round_double (of_int n * lit_1_26)"
    unfolding x using b2 by (intro round_double_mono) simp
  then have lo: "- (of_int I + 127 / 128) \<le> round_double (of_int n * lit_1_26)"
    using d2 by (simp add: round_double_exact del: minus_add_distrib)
  show ?thesis unfolding k_def [symmetric] I_def [symmetric]
    using I(1) lo hi by (rule trunc_toward_zero_neg_range)
qed

lemma trunc_exact_nonneg:
  fixes n :: int
  assumes "0 \<le> n"
  shows "trunc_toward_zero (of_int n * (126 / 100)) = (63 * n) div 50"
proof -
  have "of_int n * (126 / 100 :: rat) = of_int (63 * n) / of_int 50" by simp
  moreover have "(0::rat) \<le> of_int n * (126 / 100)" using assms by simp
  ultimately show ?thesis
    unfolding trunc_toward_zero_def by (simp only: floor_divide_of_int_eq if_True)
qed

lemma trunc_exact_neg:
  fixes n :: int
  assumes "n \<le> 0"
  shows "trunc_toward_zero (of_int n * (126 / 100)) = - ((63 * (- n)) div 50)"
proof (cases "n = 0")
  case True
  then show ?thesis by (simp add: trunc_toward_zero_def)
next
  case False
  with assms have "\<not> (0::rat) \<le> of_int n * (126 / 100)" by (simp add: mult_le_0_iff)
  moreover have "of_int n * (126 / 100 :: rat) = - (of_int (63 * (- n)) / of_int 50)" by simp
  ultimately show ?thesis
    unfolding trunc_toward_zero_def ceiling_def by (simp only: floor_divide_of_int_eq if_False minus_minus)
qed

lemma vibrance_product_finite:
  fixes n :: int
  assumes "- 50 \<le> n" "n \<le> 50"
  shows "float_mul (of_int n) lit_1_26 = Finite (round_double (of_int n * lit_1_26))"
proof -
  have "\<bar>of_int n :: rat\<bar> \<le> 50" using assms by (simp add: abs_le_iff)
  moreover have "\<bar>lit_1_26\<bar> \<le> 2" by (simp add: lit_1_26_value)
  ultimately have "\<bar>of_int n * lit_1_26\<bar> \<le> 50 * 2"
    unfolding abs_mult by (intro mult_mono) simp_all
  then have "\<bar>of_int n * lit_1_26\<bar> \<le> of_int 100" by simp
  then have "\<bar>round_double (of_int n * lit_1_26)\<bar> \<le> of_int 100"
    by (intro round_double_abs_le is_double_of_int) simp_all
  also have "(of_int 100 :: rat) < 2 ^ 1024" by simp
  finally show ?thesis unfolding float_mul_def by (rule to_float_Finite)
qed

lemma vibrance_value_int:
  assumes "0 \<le> level" "level \<le> 100"
  shows "vibrance_value level =
           Inr (max (- 63) (min 63 (if 50 \<le> level then (63 * (level - 50)) div 50
                                    else - ((63 * (50 - level)) div 50))))"
proof -
  define n where "n = level - 50"
  have n: "- 50 \<le> n" "n \<le> 50" using assms by (simp_all add: n_def)
  then have "\<bar>n\<bar> < 2 ^ 53" by simp
  then have f: "float_of_int n = Inr (of_int n)" by (rule float_of_int_small)
  have "trunc_toward_zero (round_double (of_int n * lit_1_26)) =
        (if 50 \<le> level then (63 * (level - 50)) div 50 else - ((63 * (50 - level)) div 50))"
  proof (cases "0 \<le> n")
    case True
    with n show ?thesis by (simp add: int_of_float_mul_lit_nonneg) (simp add: n_def)
  next
    case False
    then have "n \<le> 0" by simp
    with n(1) have "trunc_toward_zero (round_double (of_int n * lit_1_26)) = - ((63 * (- n)) div 50)"
      by (rule int_of_float_mul_lit_neg)
    with False show ?thesis by (simp add: n_def)
  qed
  then show ?thesis
    unfolding vibrance_value_def n_def [symmetric]
    by (simp add: f vibrance_product_finite [OF n] int_of_float_def)
qed

lemma trunc_exact_int:
  "trunc_toward_zero (of_int (level - 50) * (126 / 100)) =
     (if 50 \<le> level then (63 * (level - 50)) div 50 else - ((63 * (50 - level)) div 50))"
proof (cases "50 \<le> level")
  case True
  then show ?thesis using trunc_exact_nonneg [of "level - 50"] by simp
next
  case False
  then show ?thesis using trunc_exact_neg [of "level - 50"] by simp
qed

lemma vibrance_value_exact:
  assumes "0 \<le> level" "level \<le> 100"
  shows "vibrance_value level =
           Inr (max (- 63) (min 63 (trunc_toward_zero (of_int (level - 50) * (126 / 100)))))"
  unfolding trunc_exact_int using assms by (rule vibrance_value_int)


text \<open>The driver calls of \<^verbatim>\<open>set_vibrance\<close>.\<close>

lemma dvc_calls_set_dvc: "dvc_calls (set_dvc s h a val) = dvc_calls s @ [(h, a, val)]"
  by (simp add: set_dvc_def)

lemma dvc_calls_fan_out:
  "dvc_calls (foldl (\<lambda>s h. set_dvc s h a val) s hs) = dvc_calls s @ map (\<lambda>h. (h, a, val)) hs"
  by (induction hs arbitrary: s) (simp_all add: dvc_calls_set_dvc)

lemma dvc_calls_set_vibrance:
  assumes "available s" "vibrance_value (case level of None \<Rightarrow> 50 | Some l \<Rightarrow> l) = Inr val"
  shows "dvc_calls (set_vibrance s level primary_only) =
           dvc_calls s @ map (\<lambda>h. (h, 0, val)) (if primary_only then take 1 (handles s) else handles s)"
  using assms
  by (cases "handles s") (simp_all add: set_vibrance_def Let_def dvc_calls_fan_out dvc_calls_set_dvc)

text \<open>
  Claim C5. While the flag \<^verbatim>\<open>_is_avail\<close> is false, \<^verbatim>\<open>set_vibrance\<close> returns at
  once for every level and every primary-only flag: the service is left as it was, so no
  driver call is made and nothing is logged; the function has no path that raises.
\<close>

theorem set_vibrance_unavailable_returns:
  "\<not> available s \<Longrightarrow> set_vibrance s level primary_only = s"
  by (simp add: set_vibrance_def)

theorem set_vibrance_unavailable_returns_witness:
  "\<not> available (sample_gpu\<lparr>is_avail := False\<rparr>) \<and>
   set_vibrance (sample_gpu\<lparr>is_avail := False\<rparr>) (Some 80) True = sample_gpu\<lparr>is_avail := False\<rparr>"
  using set_vibrance_unavailable_returns [of "sample_gpu\<lparr>is_avail := False\<rparr>" "Some 80" True]
  by (simp add: available_def)

text \<open>
  Claim C6. The expression of \<^verbatim>\<open>set_vibrance\<close> sends level 50 to the hardware value
  0, level 100 to 63 and level 0 to -63.
\<close>

theorem vibrance_value_50_100_0:
  "vibrance_value 50 = Inr 0 \<and> vibrance_value 100 = Inr 63 \<and> vibrance_value 0 = Inr (- 63)"
  by (simp add: vibrance_value_int)

text \<open>
  Claim C3, as stated: for a level in [0, 100] the value written is
  clamp(-63, 63, round((level - 50) * 1.26)) with round-to-nearest. At level 52 the product
  is 2.52, whose nearest integer is 3, and the code writes 2.
\<close>

theorem set_vibrance_round_counterexample:
  "dvc_calls (set_vibrance sample_gpu (Some 52) True) = [(1, 0, 2)] \<and>
   max (- 63) (min 63 (round (of_int (52 - 50) * (126 / 100 :: rat)))) = 3"
proof -
  have "round (of_int (52 - 50) * (126 / 100 :: rat)) = 3"
    by (rule round_unique) simp_all
  moreover have "vibrance_value 52 = Inr 2" by (simp add: vibrance_value_int)
  then have "dvc_calls (set_vibrance sample_gpu (Some 52) True) = [(1, 0, 2)]"
    by (simp add: set_vibrance_def available_def sample_gpu_def set_dvc_def)
  ultimately show ?thesis by simp
qed

text \<open>
  Claim C3, amended. For every integer level in [0, 100], on an available backend,
  \<^verbatim>\<open>set_vibrance\<close> writes clamp(-63, 63, trunc((level - 50) * 1.26)) to the display
  handle(s), where trunc drops the fractional part (rounding toward zero) and the product is
  the exact one: the double product of the source has the same integer part.
\<close>

theorem set_vibrance_writes_truncated:
  assumes "available s" "0 \<le> level" "level \<le> 100"
  shows "dvc_calls (set_vibrance s (Some level) primary_only) =
           dvc_calls s @
           map (\<lambda>h. (h, 0, max (- 63) (min 63 (trunc_toward_zero (of_int (level - 50) * (126 / 100))))))
             (if primary_only then take 1 (handles s) else handles s)"
  using assms by (intro dvc_calls_set_vibrance) (simp_all add: vibrance_value_exact)

theorem set_vibrance_writes_truncated_witness:
  "available sample_gpu \<and> (0::int) \<le> 52 \<and> (52::int) \<le> 100 \<and>
   dvc_calls (set_vibrance sample_gpu (Some 52) False) = [(1, 0, 2), (2, 0, 2)]"
proof -
  have a: "available sample_gpu" by (simp add: available_def sample_gpu_def)
  have "trunc_toward_zero (of_int (52 - 50) * (126 / 100)) = 2"
    using trunc_exact_int [of 52] by simp
  with set_vibrance_writes_truncated [OF a, of 52 False] a show ?thesis
    by (simp add: sample_gpu_def)
qed

text \<open>
  Claim C8. On an available backend, with \<open>val\<close> the hardware value computed from the
  level, \<^verbatim>\<open>set_vibrance\<close> calls the driver for the first enumerated handle only when
  \<^verbatim>\<open>primary_only\<close> is true and a handle exists, and once for every enumerated handle, in
  order, when \<^verbatim>\<open>primary_only\<close> is false.
\<close>

theorem set_vibrance_fan_out:
  assumes "available s" "vibrance_value (case level of None \<Rightarrow> 50 | Some l \<Rightarrow> l) = Inr val"
  shows "(\<forall>h hs. handles s = h # hs \<longrightarrow>
            dvc_calls (set_vibrance s level True) = dvc_calls s @ [(h, 0, val)]) \<and>
         dvc_calls (set_vibrance s level False) = dvc_calls s @ map (\<lambda>h. (h, 0, val)) (handles s)"
  using dvc_calls_set_vibrance [OF assms, of True] dvc_calls_set_vibrance [OF assms, of False]
  by auto

theorem set_vibrance_fan_out_witness:
  "available sample_gpu \<and> vibrance_value (case Some 100 of None \<Rightarrow> 50 | Some l \<Rightarrow> l) = Inr 63 \<and>
   handles sample_gpu = [1, 2] \<and>
   dvc_calls (set_vibrance sample_gpu (Some 100) True) = [(1, 0, 63)] \<and>
   dvc_calls (set_vibrance sample_gpu (Some 100) False) = [(1, 0, 63), (2, 0, 63)]"
proof -
  have a: "available sample_gpu" by (simp add: available_def sample_gpu_def)
  have v: "vibrance_value (case Some 100 of None \<Rightarrow> 50 | Some l \<Rightarrow> l) = Inr 63"
    by (simp add: vibrance_value_int)
  have h: "handles sample_gpu = [1, 2]" by (simp add: sample_gpu_def)
  from set_vibrance_fan_out [OF a v] h a v show ?thesis
    by (simp add: sample_gpu_def)
qed

section \<open>Properties of WindowsMouseService\<close>

lemma optimize_Inr:
  "optimize s base target = Inr s' \<Longrightarrow> \<exists>k. s' = set_speed s k"
  by (auto simp add: optimize_def Let_def split: sum.splits prod.splits)

lemma default_do_call [simp]: "default (do_call s c) = default s"
proof (cases c)
  case (Optimize base target)
  then show ?thesis
    by (cases "optimize s base target") (auto dest: optimize_Inr simp add: set_speed_def)
qed (simp_all add: set_speed_def reset_def)

lemma default_do_calls [simp]: "default (do_calls s cs) = default s"
  unfolding do_calls_def by (induction cs arbitrary: s) simp_all

lemma spi_calls_do_call:
  "list_all (\<lambda>v. 1 \<le> v \<and> v \<le> 20) (spi_calls s) \<Longrightarrow>
   list_all (\<lambda>v. 1 \<le> v \<and> v \<le> 20) (spi_calls (do_call s c))"
proof (cases c)
  case (Optimize base target)
  assume "list_all (\<lambda>v. 1 \<le> v \<and> v \<le> 20) (spi_calls s)"
  with Optimize show ?thesis
    by (cases "optimize s base target") (auto dest: optimize_Inr simp add: set_speed_def)
qed (simp_all add: set_speed_def reset_def)

lemma spi_calls_do_calls:
  "list_all (\<lambda>v. 1 \<le> v \<and> v \<le> 20) (spi_calls s) \<Longrightarrow>
   list_all (\<lambda>v. 1 \<le> v \<and> v \<le> 20) (spi_calls (do_calls s cs))"
  unfolding do_calls_def by (induction cs arbitrary: s) (simp_all add: spi_calls_do_call)




text \<open>
  Claim C10. For every integer index \<^verbatim>\<open>set_speed\<close> passes the index clamped into
  [1, 20] to the system call, so that after any sequence of calls on a fresh service every
  value that reached the system call lies in [1, 20].
\<close>

theorem set_speed_clamps:
  "spi_calls (set_speed s index) = spi_calls s @ [max 1 (min 20 index)] \<and>
   1 \<le> max 1 (min 20 index) \<and> max 1 (min 20 index) \<le> 20 \<and>
   list_all (\<lambda>v. 1 \<le> v \<and> v \<le> 20) (spi_calls (do_calls (WindowsMouseService_init speed) cs))"
proof -
  have "list_all (\<lambda>v. 1 \<le> v \<and> v \<le> 20) (spi_calls (WindowsMouseService_init speed))"
    by (simp add: WindowsMouseService_init_def)
  then have "list_all (\<lambda>v. 1 \<le> v \<and> v \<le> 20) (spi_calls (do_calls (WindowsMouseService_init speed) cs))"
    by (rule spi_calls_do_calls)
  then show ?thesis by (simp add: set_speed_def)
qed

subsection \<open>The double arithmetic of optimize against exact arithmetic\<close>

text \<open>
  The multipliers of the table are positive multiples of 1/32, listed in ascending order.
  For a double \<open>r\<close> between 0 and \<open>2 ^ 48\<close> the difference \<open>m - r\<close> is a double
  whenever \<open>m \<le> 2 * r\<close>, so that the subtraction of the source is exact there; for
  the other entries monotonicity is enough. Hence a later entry has the smaller key in
  double arithmetic exactly when it has the smaller distance in exact arithmetic.
\<close>

lemma MAP_sorted:
  "sorted_wrt (\<lambda>a b. table_entry (snd a) \<and> table_entry (snd b) \<and> snd a < snd b) MAP"
  by (simp add: MAP_def table_entry_def)

lemma sub_exact:
  assumes r: "is_double r" "0 < r" "r < 2 ^ 48"
    and m: "m * 32 \<in> \<int>" "0 < m" "m \<le> 2 * r"
  shows "is_double (m - r)"
proof -
  from r(1) obtain mm e where re: "r = of_int mm * pow2 e" and mm: "\<bar>mm\<bar> < 2 ^ 53" and e: "- 1074 \<le> e"
    unfolding is_double_def by blast
  from m(1) obtain c :: int where c: "m * 32 = of_int c" by (rule Ints_cases)
  have mc: "m = of_int c * pow2 (- 5)" using c by (simp add: pow2_def)
  have abs_le: "\<bar>m - r\<bar> \<le> r" using m r by (simp add: abs_le_iff)
  show ?thesis
  proof (cases "e \<le> - 5")
    case True
    define k where "k = nat (- 5 - e)"
    have "pow2 (- 5) = pow2 ((- 5 - e) + e)" by simp
    also have "\<dots> = pow2 (- 5 - e) * pow2 e" by (rule pow2_add)
    also have "pow2 (- 5 - e) = 2 ^ k" using True by (simp add: pow2_nat k_def)
    finally have p5: "pow2 (- 5) = 2 ^ k * pow2 e" .
    define N where "N = c * 2 ^ k - mm"
    have mr: "m - r = of_int N * pow2 e"
      by (simp add: mc re p5 N_def algebra_simps)
    have "\<bar>of_int N * pow2 e\<bar> = \<bar>m - r\<bar>" by (simp only: mr)
    also have "\<dots> \<le> r" by (rule abs_le)
    also have "r = of_int mm * pow2 e" by (rule re)
    finally have "\<bar>of_int N :: rat\<bar> * pow2 e \<le> of_int mm * pow2 e"
      by (simp add: abs_mult)
    then have "\<bar>of_int N :: rat\<bar> \<le> of_int mm"
      by (rule mult_right_le_imp_le) simp
    then have "(of_int \<bar>N\<bar> :: rat) \<le> of_int mm" by simp
    then have "\<bar>N\<bar> \<le> mm" by (simp only: of_int_le_iff)
    with mm have "\<bar>N\<bar> < 2 ^ 53" by linarith
    with mr e show ?thesis unfolding is_double_def by blast
  next
    case False
    define k where "k = nat (e + 5)"
    have "pow2 e = pow2 ((e + 5) + (- 5))" by simp
    also have "\<dots> = pow2 (e + 5) * pow2 (- 5)" by (rule pow2_add)
    also have "pow2 (e + 5) = 2 ^ k" using False by (simp add: pow2_nat k_def)
    finally have pe: "pow2 e = 2 ^ k * pow2 (- 5)" .
    define N where "N = c - mm * 2 ^ k"
    have mr: "m - r = of_int N * pow2 (- 5)"
      by (simp add: mc re pe N_def algebra_simps)
    have "\<bar>of_int N :: rat\<bar> * pow2 (- 5) < 2 ^ 48"
      using abs_le r(3) by (simp add: mr abs_mult)
    then have "\<bar>of_int N :: rat\<bar> < 2 ^ 53" by (simp add: pow2_def)
    then have "(of_int \<bar>N\<bar> :: rat) < of_int (2 ^ 53)" by simp
    then have "\<bar>N\<bar> < 2 ^ 53" by (simp only: of_int_less_iff)
    moreover have "- 1074 \<le> (- 5 :: int)" by simp
    ultimately show ?thesis using mr unfolding is_double_def by blast
  qed
qed

lemma round_sub_exact:
  assumes "is_double r" "0 < r" "r < 2 ^ 48" "table_entry m" "m \<le> 2 * r"
  shows "round_double (m - r) = m - r"
  using assms by (intro round_double_exact sub_exact) (simp_all add: table_entry_def)

lemma round_double_nonneg: "0 \<le> x \<Longrightarrow> 0 \<le> round_double x"
  using round_double_mono [of 0 x] by (simp add: round_double_def)

lemma round_double_nonpos: "x \<le> 0 \<Longrightarrow> round_double x \<le> 0"
  using round_double_mono [of x 0] by (simp add: round_double_def)

lemma key_compare:
  assumes r: "is_double r" "0 < r" "r < 2 ^ 48"
    and mi: "table_entry mi" and mj: "table_entry mj" and lt: "mi < mj"
  shows "\<bar>round_double (mj - r)\<bar> < \<bar>round_double (mi - r)\<bar> \<longleftrightarrow> \<bar>mj - r\<bar> < \<bar>mi - r\<bar>"
proof
  assume a: "\<bar>mj - r\<bar> < \<bar>mi - r\<bar>"
  with lt have mid: "mi + mj < 2 * r" by linarith
  have "round_double (mi - r) = mi - r"
    using r mi mid lt by (intro round_sub_exact) simp_all
  moreover have "round_double (mj - r) = mj - r"
    using r mj mid mi by (intro round_sub_exact) (simp_all add: table_entry_def)
  ultimately show "\<bar>round_double (mj - r)\<bar> < \<bar>round_double (mi - r)\<bar>" using a by simp
next
  assume a: "\<bar>round_double (mj - r)\<bar> < \<bar>round_double (mi - r)\<bar>"
  show "\<bar>mj - r\<bar> < \<bar>mi - r\<bar>"
  proof (rule ccontr)
    assume "\<not> \<bar>mj - r\<bar> < \<bar>mi - r\<bar>"
    with lt have mid: "2 * r \<le> mi + mj" by linarith
    with lt have pos: "0 \<le> mj - r" by linarith
    then have jpos: "0 \<le> round_double (mj - r)" by (rule round_double_nonneg)
    have "\<bar>round_double (mi - r)\<bar> \<le> round_double (mj - r)"
    proof (cases "mi \<le> r")
      case True
      have ex: "round_double (mi - r) = mi - r"
        using r mi True by (intro round_sub_exact) simp_all
      have "is_double (mi - r)"
        using r mi True by (intro sub_exact) (simp_all add: table_entry_def)
      then have "is_double (r - mi)" using is_double_minus [of "mi - r"] by simp
      then have "round_double (r - mi) = r - mi" by (rule round_double_exact)
      moreover have "round_double (r - mi) \<le> round_double (mj - r)"
        using mid by (intro round_double_mono) simp
      ultimately show ?thesis using ex True by simp
    next
      case False
      then have "0 \<le> round_double (mi - r)" by (intro round_double_nonneg) simp
      moreover have "round_double (mi - r) \<le> round_double (mj - r)"
        using lt by (intro round_double_mono) simp
      ultimately show ?thesis by simp
    qed
    with a jpos show False by simp
  qed
qed

lemma key_Finite:
  assumes "is_double r" "0 < r" "r < 2 ^ 48" "table_entry m"
  shows "float_abs (float_sub m (Finite r)) = Finite \<bar>round_double (m - r)\<bar>"
proof -
  have "\<bar>m - r\<bar> \<le> 2 ^ 48" using assms by (simp add: table_entry_def abs_le_iff)
  moreover have "is_double (2 ^ 48)" using is_double_of_int [of "2 ^ 48"] by simp
  ultimately have "\<bar>round_double (m - r)\<bar> \<le> 2 ^ 48" by (intro round_double_abs_le)
  also have "(2::rat) ^ 48 < 2 ^ 1024" by simp
  finally have "to_float (m - r) = Finite (round_double (m - r))" by (rule to_float_Finite)
  then show ?thesis by (simp add: float_sub_def float_abs_def)
qed

text \<open>
  Of two entries the later one is nearer to \<open>x\<close> exactly when \<open>x\<close> lies above their
  midpoint, a multiple of 1/64. The rounded quotient lies on the same side of such a
  midpoint as the exact quotient when the target is at most \<open>2 ^ 45\<close>.
\<close>

lemma mid_compare:
  fixes mi mj x :: rat
  assumes "mi < mj"
  shows "\<bar>mj - x\<bar> < \<bar>mi - x\<bar> \<longleftrightarrow> (mi + mj) / 2 < x"
  using assms by (auto simp add: abs_if)

lemma round_quotient_vs_mid:
  fixes b t :: int
  assumes b: "1 \<le> b" and t: "1 \<le> t" "t \<le> 2 ^ 45"
    and s: "s * 64 \<in> \<int>" "0 \<le> s" "s \<le> 7 / 2"
  shows "s < round_double (of_int b / of_int t) \<longleftrightarrow> s < of_int b / of_int t"
proof -
  from s(1) obtain c :: int where c: "s * 64 = of_int c" by (rule Ints_cases)
  have sc: "s = of_int c / 2 ^ 6" using c by simp
  have c0: "0 \<le> c" and c224: "c \<le> 224"
  proof -
    have "(0::rat) \<le> of_int c" using s(2) c by (metis mult_nonneg_nonneg zero_le_numeral)
    then show "0 \<le> c" by simp
    have "(of_int c :: rat) \<le> of_int 224" using s(3) c by simp
    then show "c \<le> 224" by (simp only: of_int_le_iff)
  qed
  have ds: "is_double s" unfolding sc using c0 c224 by (intro is_double_dyadic) simp_all
  have tpos: "(0::rat) < of_int t" using t by simp
  show ?thesis
  proof
    assume "s < round_double (of_int b / of_int t)"
    show "s < of_int b / of_int t"
    proof (rule ccontr)
      assume "\<not> s < of_int b / of_int t"
      then have "round_double (of_int b / of_int t) \<le> round_double s"
        by (intro round_double_mono) simp
      with ds \<open>s < round_double (of_int b / of_int t)\<close> show False
        by (simp add: round_double_exact)
    qed
  next
    assume lt: "s < of_int b / of_int t"
    then have "of_int c / 64 < (of_int b :: rat) / of_int t" using sc by simp
    then have "of_int c * of_int t < (of_int b :: rat) * 64"
      using tpos by (simp add: field_simps)
    then have "(of_int (c * t) :: rat) < of_int (b * 64)" by simp
    then have "c * t < b * 64" by (simp only: of_int_less_iff)
    then have "c * t + 1 \<le> b * 64" by simp
    then have "(of_int (c * t + 1) :: rat) \<le> of_int (b * 64)" by (simp only: of_int_le_iff)
    then have "of_int c * of_int t + 1 \<le> (of_int b :: rat) * 64" by simp
    then have "(of_int c * of_int t + 1) / (64 * of_int t) \<le> ((of_int b :: rat) * 64) / (64 * of_int t)"
      using tpos by (intro divide_right_mono) simp_all
    moreover have "(of_int c * of_int t + 1) / (64 * of_int t) = s + 1 / (64 * (of_int t :: rat))"
      using tpos by (simp add: sc add_divide_distrib)
    moreover have "((of_int b :: rat) * 64) / (64 * of_int t) = of_int b / of_int t"
      by simp
    ultimately have gap: "s + 1 / (64 * of_int t) \<le> of_int b / of_int t"
      by simp
    have "(of_int t :: rat) \<le> of_int (2 ^ 45)" using t(2) by (simp only: of_int_le_iff)
    then have "(of_int t :: rat) \<le> 2 ^ 45" by simp
    then have "64 * (of_int t :: rat) \<le> 2 ^ 51" by simp
    then have "1 / 2 ^ 51 \<le> 1 / (64 * of_int t :: rat)"
      using tpos by (intro divide_left_mono) simp_all
    with gap have step: "s + 1 / 2 ^ 51 \<le> of_int b / of_int t" by linarith
    have e: "s + 1 / 2 ^ 51 = of_int (c * 2 ^ 45 + 1) / 2 ^ 51" by (simp add: sc field_simps)
    have "is_double (s + 1 / 2 ^ 51)"
      unfolding e using c0 c224 by (intro is_double_dyadic) simp_all
    then have "round_double (s + 1 / 2 ^ 51) = s + 1 / 2 ^ 51" by (rule round_double_exact)
    moreover have "round_double (s + 1 / 2 ^ 51) \<le> round_double (of_int b / of_int t)"
      using step by (rule round_double_mono)
    ultimately show "s < round_double (of_int b / of_int t)" by simp
  qed
qed

text \<open>
  The loop of \<^verbatim>\<open>min\<close> compares each later item with the current candidate, so its
  result depends only on those comparisons; with a linear order it returns the first
  item whose key is minimal.
\<close>

lemma foldl_min_cong:
  assumes "sorted_wrt R (x # ys)"
    and "\<And>a b. R a b \<Longrightarrow> less1 (key1 b) (key1 a) = less2 (key2 b) (key2 a)"
  shows "foldl (\<lambda>best y. if less1 (key1 y) (key1 best) then y else best) x ys =
         foldl (\<lambda>best y. if less2 (key2 y) (key2 best) then y else best) x ys"
  using assms(1)
proof (induction ys arbitrary: x)
  case Nil
  then show ?case by simp
next
  case (Cons y ys)
  from Cons.prems have xy: "R x y" and tl: "sorted_wrt R (y # ys)"
    and xs: "sorted_wrt R (x # ys)" by simp_all
  have same: "less1 (key1 y) (key1 x) = less2 (key2 y) (key2 x)" using xy by (rule assms(2))
  show ?case
  proof (cases "less2 (key2 y) (key2 x)")
    case True
    with same Cons.IH [OF tl] show ?thesis by simp
  next
    case False
    with same Cons.IH [OF xs] show ?thesis by simp
  qed
qed

lemma find_first_minimum:
  fixes key :: "'a \<Rightarrow> 'b::linorder"
  shows "find (\<lambda>a. \<forall>b \<in> set (x # ys). key a \<le> key b) (x # ys) =
         Some (foldl (\<lambda>best y. if key y < key best then y else best) x ys)"
proof (induction ys arbitrary: x)
  case Nil
  then show ?case by simp
next
  case (Cons y ys)
  show ?case
  proof (cases "key y < key x")
    case True
    have "find (\<lambda>a. \<forall>b \<in> set (x # y # ys). key a \<le> key b) (x # y # ys) =
          find (\<lambda>a. \<forall>b \<in> set (x # y # ys). key a \<le> key b) (y # ys)"
      using True by auto
    also have "\<dots> = find (\<lambda>a. \<forall>b \<in> set (y # ys). key a \<le> key b) (y # ys)"
      using True by (intro find_cong) auto
    finally show ?thesis using True Cons.IH [of y] by simp
  next
    case False
    show ?thesis
    proof (cases "\<forall>b \<in> set (x # ys). key x \<le> key b")
      case min: True
      with False have "\<forall>b \<in> set (x # y # ys). key x \<le> key b" by auto
      then have "find (\<lambda>a. \<forall>b \<in> set (x # y # ys). key a \<le> key b) (x # y # ys) = Some x"
        by simp
      moreover from min have "find (\<lambda>a. \<forall>b \<in> set (x # ys). key a \<le> key b) (x # ys) = Some x"
        by simp
      ultimately show ?thesis using False Cons.IH [of x] by simp
    next
      case nomin: False
      then have nx: "\<not> (\<forall>b \<in> set (x # y # ys). key x \<le> key b)" by auto
      have ny: "\<not> (\<forall>b \<in> set (x # y # ys). key y \<le> key b)"
      proof
        assume "\<forall>b \<in> set (x # y # ys). key y \<le> key b"
        with False have "\<forall>b \<in> set (x # ys). key x \<le> key b" by auto
        with nomin show False by simp
      qed
      have "find (\<lambda>a. \<forall>b \<in> set (x # y # ys). key a \<le> key b) (x # y # ys) =
            find (\<lambda>a. \<forall>b \<in> set (x # y # ys). key a \<le> key b) ys"
        using nx ny by (simp only: find.simps if_False)
      also have "\<dots> = find (\<lambda>a. \<forall>b \<in> set (x # ys). key a \<le> key b) ys"
        using False by (intro find_cong) auto
      also have "\<dots> = find (\<lambda>a. \<forall>b \<in> set (x # ys). key a \<le> key b) (x # ys)"
        using nomin by (simp only: find.simps if_False)
      finally show ?thesis using False Cons.IH [of x] by simp
    qed
  qed
qed

lemma float_key_agrees:
  fixes base target :: int
  assumes b: "1 \<le> base" "base \<le> 2 ^ 45" and t: "1 \<le> target" "target \<le> 2 ^ 45"
    and a: "table_entry (snd a)" and c: "table_entry (snd c)" and lt: "snd a < snd c"
  defines "r \<equiv> round_double (of_int base / of_int target)"
  assumes r: "0 < r" "r < 2 ^ 48"
  shows "float_less ((\<lambda>(k, m). float_abs (float_sub m (Finite r))) c)
                    ((\<lambda>(k, m). float_abs (float_sub m (Finite r))) a) =
         (distance (of_int base / of_int target) c < distance (of_int base / of_int target) a)"
proof -
  have dr: "is_double r" unfolding r_def by (rule is_double_round_double)
  define s where "s = (snd a + snd c) / 2"
  have "s * 64 = snd a * 32 + snd c * 32" by (simp add: s_def)
  moreover have "snd a * 32 + snd c * 32 \<in> \<int>"
    using a c by (intro Ints_add) (simp_all add: table_entry_def)
  ultimately have s64: "s * 64 \<in> \<int>" by simp
  have s0: "0 \<le> s" and s7: "s \<le> 7 / 2" using a c by (simp_all add: s_def table_entry_def)
  have "float_less ((\<lambda>(k, m). float_abs (float_sub m (Finite r))) c)
                   ((\<lambda>(k, m). float_abs (float_sub m (Finite r))) a) =
        (\<bar>round_double (snd c - r)\<bar> < \<bar>round_double (snd a - r)\<bar>)"
    by (simp add: case_prod_unfold key_Finite [OF dr r] a c)
  also have "\<dots> = (\<bar>snd c - r\<bar> < \<bar>snd a - r\<bar>)"
    using dr r a c lt by (rule key_compare)
  also have "\<dots> = (s < r)" unfolding s_def using lt by (rule mid_compare)
  also have "\<dots> = (s < of_int base / of_int target)"
    unfolding r_def using b(1) t s64 s0 s7 by (rule round_quotient_vs_mid)
  also have "\<dots> = (\<bar>snd c - of_int base / of_int target\<bar> < \<bar>snd a - of_int base / of_int target\<bar>)"
    unfolding s_def using lt by (rule mid_compare [symmetric])
  finally show ?thesis by (simp add: distance_def)
qed


text \<open>Evaluating \<open>round_double\<close> at a number whose exponent and nearest grid point are known.\<close>

lemma ilog2_unique:
  assumes "x \<noteq> 0" "pow2 e \<le> \<bar>x\<bar>" "\<bar>x\<bar> < pow2 (e + 1)"
  shows "ilog2 x = e"
proof -
  have "pow2 (ilog2 x) < pow2 (e + 1)"
    using ilog2_bounds(1) [OF assms(1)] assms(3) by (rule le_less_trans)
  moreover have "pow2 e < pow2 (ilog2 x + 1)"
    using assms(2) ilog2_bounds(2) [OF assms(1)] by (rule le_less_trans)
  ultimately show ?thesis by simp
qed

lemma round_half_even_unique:
  assumes "\<bar>y - of_int n\<bar> < 1 / 2"
  shows "round_half_even y = n"
proof -
  have "\<bar>of_int (round_half_even y) - y\<bar> \<le> 1 / 2" by (rule round_half_even_near)
  with assms have "\<bar>(of_int (round_half_even y) :: rat) - of_int n\<bar> < 1" by linarith
  then have "(of_int \<bar>round_half_even y - n\<bar> :: rat) < of_int 1" by simp
  then have "\<bar>round_half_even y - n\<bar> < 1" by (simp only: of_int_less_iff)
  then show ?thesis by simp
qed

lemma round_double_eval:
  assumes "x \<noteq> 0" "pow2 e \<le> \<bar>x\<bar>" "\<bar>x\<bar> < pow2 (e + 1)"
    and "q = max (e - 52) (- 1074)" "\<bar>x / pow2 q - of_int n\<bar> < 1 / 2"
  shows "round_double x = of_int n * pow2 q"
proof -
  have "ilog2 x = e" using assms(1-3) by (rule ilog2_unique)
  moreover have "round_half_even (x / pow2 q) = n" using assms(5) by (rule round_half_even_unique)
  ultimately show ?thesis using assms(1,4) by (simp add: round_double_def Let_def)
qed

lemma round_double_below_2_60:
  assumes "0 < m" "m \<le> 7 / 2"
  shows "round_double (m - 1152921504606846976) = - 1152921504606846976"
proof -
  have "round_double (m - 1152921504606846976) = of_int (- (2 ^ 53)) * pow2 7"
  proof (rule round_double_eval [where e = 59])
    show "m - 1152921504606846976 \<noteq> 0" using assms by simp
    show "pow2 59 \<le> \<bar>m - 1152921504606846976\<bar>" using assms by (simp add: pow2_def)
    show "\<bar>m - 1152921504606846976\<bar> < pow2 (59 + 1)" using assms by (simp add: pow2_def)
    show "(7::int) = max (59 - 52) (- 1074)" by simp
    show "\<bar>(m - 1152921504606846976) / pow2 7 - of_int (- (2 ^ 53))\<bar> < 1 / 2"
      using assms by (simp add: pow2_def diff_divide_distrib)
  qed
  then show ?thesis by (simp add: pow2_def)
qed

lemma is_double_pow2: "- 1074 \<le> e \<Longrightarrow> is_double (pow2 e)"
proof -
  assume "- 1074 \<le> e"
  then have "pow2 e = of_int 1 * pow2 e \<and> \<bar>1::int\<bar> < 2 ^ 53 \<and> - 1074 \<le> e" by simp
  then show ?thesis unfolding is_double_def by blast
qed

lemma to_float_2_60: "to_float 1152921504606846976 = Finite 1152921504606846976"
proof -
  have "is_double (pow2 60)" by (rule is_double_pow2) simp
  then have "is_double 1152921504606846976" by (simp add: pow2_def)
  moreover have "\<bar>1152921504606846976 :: rat\<bar> < 2 ^ 1024" by simp
  ultimately show ?thesis by (rule to_float_exact)
qed

lemma foldl_keep_first:
  assumes "\<forall>y \<in> set ys. \<not> lt (key y) (key x)"
  shows "foldl (\<lambda>best y. if lt (key y) (key best) then y else best) x ys = x"
  using assms by (induction ys) simp_all

lemma key_at_2_60:
  assumes "table_entry m"
  shows "float_abs (float_sub m (Finite 1152921504606846976)) = Finite 1152921504606846976"
proof -
  have rd: "round_double (m - 1152921504606846976) = - 1152921504606846976"
    using assms by (intro round_double_below_2_60) (simp_all add: table_entry_def)
  have "\<bar>round_double (m - 1152921504606846976)\<bar> < 2 ^ 1024" unfolding rd by simp
  then have "to_float (m - 1152921504606846976) = Finite (round_double (m - 1152921504606846976))"
    by (rule to_float_Finite)
  then show ?thesis by (simp add: float_sub_def float_abs_def rd)
qed

lemma MAP_entries: "\<forall>e \<in> set MAP. table_entry (snd e)"
  by (simp add: MAP_def table_entry_def)

lemma optimize_2_60: "optimize s 1152921504606846976 1 = Inr (set_speed s 1)"
proof -
  have fb: "float_of_int 1152921504606846976 = Inr 1152921504606846976"
    by (simp add: float_of_int_def to_float_2_60)
  have ft: "float_of_int 1 = Inr 1" using float_of_int_small [of 1] by simp
  have m10: "map_of MAP 10 = Some 1" by (simp add: MAP_def)
  have mul: "float_mul 1152921504606846976 1 = Finite 1152921504606846976"
    by (simp add: float_mul_def to_float_2_60)
  have div: "float_div (Finite 1152921504606846976) 1 = Inr (Finite 1152921504606846976)"
    by (simp add: float_div_def to_float_2_60)
  obtain ys where xs: "MAP = (1, 1 / 32) # ys" by (simp add: MAP_def)
  define K :: "int \<times> rat \<Rightarrow> pyfloat"
    where "K = (\<lambda>(k, m). float_abs (float_sub m (Finite 1152921504606846976)))"
  have "\<forall>y \<in> set ys. \<not> float_less (K y) (K (1, 1 / 32))"
  proof
    fix y assume "y \<in> set ys"
    then have "table_entry (snd y)" using MAP_entries by (simp add: xs)
    moreover have "table_entry (1 / 32)" by (simp add: table_entry_def)
    ultimately show "\<not> float_less (K y) (K (1, 1 / 32))"
      by (simp add: K_def case_prod_unfold key_at_2_60)
  qed
  then have "foldl (\<lambda>best y. if float_less (K y) (K best) then y else best) (1, 1 / 32) ys = (1, 1 / 32)"
    by (rule foldl_keep_first [where lt = float_less and key = K])
  then have "py_min_key K MAP = Inr (1, 1 / 32)"
    by (simp add: py_min_key_def xs)
  then have "py_min_key (\<lambda>(k, m). float_abs (float_sub m (Finite 1152921504606846976))) MAP =
             Inr (1, 1 / 32)"
    by (simp only: K_def)
  then show ?thesis
    by (simp add: optimize_def fb ft m10 mul div Let_def)
qed

lemma nearest_index_2_60: "nearest_index (of_int 1152921504606846976 / of_int 1) = Some 20"
  by (simp add: nearest_index_def MAP_def distance_def)

lemma nearest_index_half: "nearest_index (of_int 800 / of_int 1600) = Some 6"
  by (simp add: nearest_index_def MAP_def distance_def)

text \<open>
  \<open>nearest_index\<close> is what the specification says: an entry of minimal distance, with
  the lowest index among those.
\<close>

lemma MAP_indices_sorted: "sorted (map fst MAP)"
  by (simp add: MAP_def)

lemma nearest_index_lowest:
  assumes "nearest_index q = Some k"
  shows "\<exists>m. (k, m) \<in> set MAP \<and>
             (\<forall>e \<in> set MAP. \<bar>m - q\<bar> \<le> \<bar>snd e - q\<bar>) \<and>
             (\<forall>e \<in> set MAP. \<bar>snd e - q\<bar> = \<bar>m - q\<bar> \<longrightarrow> k \<le> fst e)"
proof -
  define P where "P = (\<lambda>e. \<forall>e' \<in> set MAP. distance q e \<le> distance q e')"
  from assms obtain z where z: "find P MAP = Some z" and k: "k = fst z"
    by (auto simp add: nearest_index_def P_def)
  from z obtain i where i: "i < length MAP" "P (MAP ! i)" "z = MAP ! i" "\<forall>j<i. \<not> P (MAP ! j)"
    unfolding find_Some_iff by blast
  have zin: "(k, snd z) \<in> set MAP" using i(1,3) k by (metis nth_mem prod.collapse)
  have minimal: "\<forall>e \<in> set MAP. \<bar>snd z - q\<bar> \<le> \<bar>snd e - q\<bar>"
    using i(2,3) by (simp add: P_def distance_def)
  have lowest: "\<forall>e \<in> set MAP. \<bar>snd e - q\<bar> = \<bar>snd z - q\<bar> \<longrightarrow> k \<le> fst e"
  proof (intro ballI impI)
    fix e assume e: "e \<in> set MAP" and eq: "\<bar>snd e - q\<bar> = \<bar>snd z - q\<bar>"
    then obtain j where j: "j < length MAP" "e = MAP ! j" by (metis in_set_conv_nth)
    have "P e" using minimal eq by (simp add: P_def distance_def)
    with i(4) j have "i \<le> j" by (metis not_le_imp_less)
    then have "map fst MAP ! i \<le> map fst MAP ! j"
      using MAP_indices_sorted j(1) by (intro sorted_nth_mono) simp_all
    then show "k \<le> fst e" using i(1,3) j k by simp
  qed
  from zin minimal lowest show ?thesis by blast
qed

lemma optimize_in_range:
  fixes base target :: int
  assumes b: "1 \<le> base" "base \<le> 2 ^ 45" and t: "1 \<le> target" "target \<le> 2 ^ 45"
  shows "\<exists>k. nearest_index (of_int base / of_int target) = Some k \<and>
             optimize s base target = Inr (set_speed s k)"
proof -
  define q :: rat where "q = of_int base / of_int target"
  define r where "r = round_double q"
  have bs: "\<bar>base\<bar> < 2 ^ 53" using b by simp
  have ts: "\<bar>target\<bar> < 2 ^ 53" using t by simp
  have fb: "float_of_int base = Inr (of_int base)" using bs by (rule float_of_int_small)
  have ft: "float_of_int target = Inr (of_int target)" using ts by (rule float_of_int_small)
  have m10: "map_of MAP 10 = Some 1" by (simp add: MAP_def)
  have rb: "(1::rat) \<le> of_int base" "(of_int base :: rat) \<le> 2 ^ 45"
  proof -
    show "(1::rat) \<le> of_int base" using b(1) by simp
    have "(of_int base :: rat) \<le> of_int (2 ^ 45)" using b(2) by (simp only: of_int_le_iff)
    then show "(of_int base :: rat) \<le> 2 ^ 45" by simp
  qed
  have rt: "(1::rat) \<le> of_int target" "(of_int target :: rat) \<le> 2 ^ 45"
  proof -
    show "(1::rat) \<le> of_int target" using t(1) by simp
    have "(of_int target :: rat) \<le> of_int (2 ^ 45)" using t(2) by (simp only: of_int_le_iff)
    then show "(of_int target :: rat) \<le> 2 ^ 45" by simp
  qed
  have mul: "float_mul (of_int base) 1 = Finite (of_int base)"
  proof -
    have "\<bar>of_int base :: rat\<bar> < 2 ^ 1024" using rb by simp
    then show ?thesis
      unfolding float_mul_def using bs by (simp add: to_float_exact is_double_of_int)
  qed
  have q_hi: "q \<le> 2 ^ 45"
  proof -
    have "q \<le> of_int base / 1" unfolding q_def using rb rt by (intro divide_left_mono) simp_all
    with rb show ?thesis by simp
  qed
  have q_lo: "1 / 2 ^ 45 \<le> q"
  proof -
    have "1 / 2 ^ 45 \<le> 1 / (of_int target :: rat)" using rt by (intro divide_left_mono) simp_all
    also have "\<dots> \<le> q" unfolding q_def using rb rt by (intro divide_right_mono) simp_all
    finally show ?thesis .
  qed
  have r_hi: "r \<le> 2 ^ 45"
  proof -
    have "is_double (2 ^ 45)" using is_double_of_int [of "2 ^ 45"] by simp
    then have "round_double (2 ^ 45) = 2 ^ 45" by (rule round_double_exact)
    with round_double_mono [OF q_hi] show ?thesis by (simp add: r_def)
  qed
  have r_lo: "1 / 2 ^ 45 \<le> r"
  proof -
    have "is_double (of_int 1 / 2 ^ 45)" by (intro is_double_dyadic) simp_all
    then have "round_double (1 / 2 ^ 45) = 1 / 2 ^ 45" using round_double_exact by simp
    with round_double_mono [OF q_lo] show ?thesis by (simp add: r_def)
  qed
  have r0: "0 < r" using r_lo by (rule less_le_trans [rotated]) simp
  have r48: "r < 2 ^ 48" using r_hi by (rule le_less_trans) simp
  have "\<bar>r\<bar> < 2 ^ 1024" using r0 r48 by simp
  then have tq: "to_float q = Finite r" unfolding r_def by (rule to_float_Finite)
  have div: "float_div (Finite (of_int base)) (of_int target) = Inr (Finite r)"
    using rt by (simp add: float_div_def tq [unfolded q_def])
  obtain x ys where xs: "MAP = x # ys" by (simp add: MAP_def)
  define z where "z = foldl (\<lambda>best y. if distance q y < distance q best then y else best) x ys"
  have srt: "sorted_wrt (\<lambda>a b. table_entry (snd a) \<and> table_entry (snd b) \<and> snd a < snd b) (x # ys)"
    using MAP_sorted by (simp only: xs)
  have cong: "foldl (\<lambda>best y. if float_less ((\<lambda>(k, m). float_abs (float_sub m (Finite r))) y)
                                           ((\<lambda>(k, m). float_abs (float_sub m (Finite r))) best)
                               then y else best) x ys = z"
    unfolding z_def
  proof (rule foldl_min_cong [OF srt])
    fix a c :: "int \<times> rat"
    assume "table_entry (snd a) \<and> table_entry (snd c) \<and> snd a < snd c"
    then show "float_less ((\<lambda>(k, m). float_abs (float_sub m (Finite r))) c)
                          ((\<lambda>(k, m). float_abs (float_sub m (Finite r))) a) =
               (distance q c < distance q a)"
      unfolding r_def q_def
      using b t r0 r48 by (intro float_key_agrees) (simp_all add: r_def q_def)
  qed
  have "find (\<lambda>e. \<forall>e' \<in> set (x # ys). distance q e \<le> distance q e') (x # ys) = Some z"
    unfolding z_def by (rule find_first_minimum)
  then have near: "nearest_index q = Some (fst z)"
    by (simp add: nearest_index_def xs)
  have "py_min_key (\<lambda>(k, m). float_abs (float_sub m (Finite r))) MAP = Inr z"
    using cong by (simp add: py_min_key_def xs)
  then have "optimize s base target = Inr (set_speed s (fst z))"
    by (simp add: optimize_def fb ft m10 mul div Let_def case_prod_unfold)
  with near show ?thesis unfolding q_def by blast
qed

lemma MAP_indices: "\<forall>e \<in> set MAP. 1 \<le> fst e \<and> fst e \<le> 20"
  by (simp add: MAP_def)

text \<open>
  Claim C4, as stated: for all positive integers base and target, \<^verbatim>\<open>optimize\<close>
  applies the index nearest to base/target. For base = 2 ^ 60 = 1152921504606846976 and
  target = 1 the nearest entry is index 20, but every difference
  \<^verbatim>\<open>self._MAP[k] - req\<close> rounds to the same double, - 2 ^ 60, so that no key is
  smaller than the first one and \<^verbatim>\<open>min\<close> returns index 1, whose multiplier is
  farther from the quotient than that of index 20.
\<close>

theorem optimize_huge_base_counterexample:
  "optimize (WindowsMouseService_init 10) 1152921504606846976 1 =
     Inr (set_speed (WindowsMouseService_init 10) 1) \<and>
   nearest_index (of_int 1152921504606846976 / of_int 1) = Some 20 \<and>
   (1, 1 / 32) \<in> set MAP \<and> (20, 7 / 2) \<in> set MAP \<and>
   \<bar>7 / 2 - of_int 1152921504606846976 / of_int 1\<bar>
     < \<bar>1 / 32 - of_int 1152921504606846976 / (of_int 1 :: rat)\<bar>"
proof (intro conjI)
  show "optimize (WindowsMouseService_init 10) 1152921504606846976 1 =
          Inr (set_speed (WindowsMouseService_init 10) 1)"
    by (rule optimize_2_60)
  show "nearest_index (of_int 1152921504606846976 / of_int 1) = Some 20"
    by (rule nearest_index_2_60)
  show "(1, 1 / 32) \<in> set MAP" "(20, 7 / 2) \<in> set MAP" by (simp_all add: MAP_def)
  show "\<bar>7 / 2 - of_int 1152921504606846976 / of_int 1\<bar>
          < \<bar>1 / 32 - of_int 1152921504606846976 / (of_int 1 :: rat)\<bar>"
    by simp
qed

text \<open>
  Claim C4, amended. For all integers base and target from 1 to 2 ^ 45, \<^verbatim>\<open>optimize\<close>
  returns normally and applies, through \<^verbatim>\<open>set_speed\<close>, an index \<open>k\<close> of the table,
  between 1 and 20, whose multiplier minimises the distance to the exact quotient
  base/target, and the lowest index among those of minimal distance: on this range the
  double arithmetic of the code takes the decisions of exact arithmetic.
\<close>

theorem optimize_picks_nearest:
  fixes base target :: int
  assumes "1 \<le> base" "base \<le> 2 ^ 45" "1 \<le> target" "target \<le> 2 ^ 45"
  shows "\<exists>k m. optimize s base target = Inr (set_speed s k) \<and>
           (k, m) \<in> set MAP \<and> 1 \<le> k \<and> k \<le> 20 \<and>
           (\<forall>e \<in> set MAP. \<bar>m - of_int base / of_int target\<bar>
                             \<le> \<bar>snd e - of_int base / of_int target\<bar>) \<and>
           (\<forall>e \<in> set MAP. \<bar>snd e - of_int base / of_int target\<bar>
                             = \<bar>m - of_int base / of_int target\<bar> \<longrightarrow> k \<le> fst e) \<and>
           nearest_index (of_int base / of_int target) = Some k"
proof -
  from optimize_in_range [OF assms, of s]
  obtain k where near: "nearest_index (of_int base / of_int target) = Some k"
    and opt: "optimize s base target = Inr (set_speed s k)"
    by blast
  from nearest_index_lowest [OF near]
  obtain m where m: "(k, m) \<in> set MAP"
    and least: "\<forall>e \<in> set MAP. \<bar>m - of_int base / of_int target\<bar>
                                \<le> \<bar>snd e - of_int base / of_int target\<bar>"
    and lowest: "\<forall>e \<in> set MAP. \<bar>snd e - of_int base / of_int target\<bar>
                                = \<bar>m - of_int base / of_int target\<bar> \<longrightarrow> k \<le> fst e"
    by blast
  from m MAP_indices have "1 \<le> k \<and> k \<le> 20" by fastforce
  with opt m least lowest near show ?thesis by blast
qed

theorem optimize_picks_nearest_witness:
  "(1::int) \<le> 800 \<and> (800::int) \<le> 2 ^ 45 \<and> (1::int) \<le> 1600 \<and> (1600::int) \<le> 2 ^ 45 \<and>
   nearest_index (of_int 800 / of_int 1600) = Some 6 \<and>
   optimize (WindowsMouseService_init 10) 800 1600 = Inr (set_speed (WindowsMouseService_init 10) 6)"
proof -
  have h: "(1::int) \<le> 800" "(800::int) \<le> 2 ^ 45" "(1::int) \<le> 1600" "(1600::int) \<le> 2 ^ 45"
    by simp_all
  from optimize_picks_nearest [OF h, of "WindowsMouseService_init 10"]
  obtain k where k: "nearest_index (of_int 800 / of_int 1600) = Some k"
    and o: "optimize (WindowsMouseService_init 10) 800 1600 = Inr (set_speed (WindowsMouseService_init 10) k)"
    by blast
  from k have "k = 6" by (simp only: nearest_index_half option.inject)
  with h o nearest_index_half show ?thesis by (intro conjI) simp_all
qed

section \<open>Properties of the actions of App\<close>

text \<open>
  Claim C2, as stated: once the recorded mode has left Unknown, no operation sets it back.
  Stopping the automation does: \<^verbatim>\<open>toggle_engine\<close> on a running engine whose mode is
  Game leaves the mode Unknown.
\<close>

theorem toggle_engine_unknown_counterexample:
  "current_state (engine sample_app) = ''game'' \<and>
   current_state (engine (toggle_engine (\<lambda>h. h) sample_app)) = ''unknown''"
  by (simp add: toggle_engine_def sample_app_def Let_def)

text \<open>
  Claim C2, amended. \<^verbatim>\<open>toggle_engine\<close> flips the running flag. When it starts the
  automation it leaves the recorded mode as it is; when it stops the automation it runs the
  safety protocol and sets the recorded mode back to Unknown, whatever it was.
  \<^verbatim>\<open>on_vib_change\<close> never changes the engine state.
\<close>

theorem toggle_engine_mode:
  "running (engine (toggle_engine safety_execute app)) = (\<not> running (engine app)) \<and>
   current_state (engine (toggle_engine safety_execute app)) =
     (if running (engine app) then ''unknown'' else current_state (engine app)) \<and>
   hw (toggle_engine safety_execute app) =
     (if running (engine app) then safety_execute (hw app) else hw app) \<and>
   engine (on_vib_change app value is_game) = engine app"
  by (simp add: toggle_engine_def on_vib_change_def Let_def)


end
